theory Spec2Isabelle
  imports Complex_Main
begin

section \<open>Errors and Python values\<close>

text \<open>
  Every way the Python source can stop with an exception is a constructor of \<open>error\<close>;
  a fallible operation returns \<open>error + 'a\<close>, with \<open>Inl\<close> for the exception.
\<close>

datatype error = AssertionError | KeyError | IndexError | TypeError | ZeroDivisionError

text \<open>
  The values that flow through \<open>TechnicalIndicatorBase.getValueAbsolute\<close>: Python's
  \<open>None\<close>, the sentinel class \<open>Cache.ValueNotCached\<close>, or a computed value.
\<close>

datatype 'v pyval = PyNone | ValueNotCached | Val 'v

section \<open>technical/__init__.py: the caches\<close>

text \<open>
  \<open>FIFOCache\<close>: the fields \<open>__size\<close>, \<open>__cache\<close> (a dict) and \<open>__pos\<close> (a list used
  as the insertion log).
\<close>

record 'a FIFOCache =
  c_size :: int
  c_cache :: "int \<rightharpoonup> 'a"
  c_pos :: "int list"

definition FIFOCache_init :: "int \<Rightarrow> error + 'a FIFOCache" where
  "FIFOCache_init sz =
     (if sz > 0 then Inr \<lparr>c_size = sz, c_cache = Map.empty, c_pos = []\<rparr>
      else Inl AssertionError)"

definition FIFOCache_isCached :: "'a FIFOCache \<Rightarrow> int \<Rightarrow> bool" where
  "FIFOCache_isCached c p = (p \<in> dom (c_cache c))"

definition FIFOCache_getValue :: "'a FIFOCache \<Rightarrow> int \<Rightarrow> 'a \<Rightarrow> 'a" where
  "FIFOCache_getValue c p dflt = (case c_cache c p of None \<Rightarrow> dflt | Some v \<Rightarrow> v)"

text \<open>
  \<open>putValue\<close>: store, append to the log, and when the dict has grown beyond the size,
  \<open>del self.__cache[self.__pos.pop(0)]\<close>. \<open>pop(0)\<close> raises IndexError on an empty list
  and \<open>del\<close> raises KeyError on a key that is not in the dict.
\<close>

definition FIFOCache_putValue :: "'a FIFOCache \<Rightarrow> int \<Rightarrow> 'a \<Rightarrow> error + 'a FIFOCache" where
  "FIFOCache_putValue c p v =
     (let cache1 = (c_cache c)(p \<mapsto> v);
          pos1 = c_pos c @ [p]
      in if int (card (dom cache1)) > c_size c then
           (case pos1 of
              [] \<Rightarrow> Inl IndexError
            | k # rest \<Rightarrow>
                if k \<in> dom cache1
                then Inr (c\<lparr>c_cache := cache1(k := None), c_pos := rest\<rparr>)
                else Inl KeyError)
         else Inr (c\<lparr>c_cache := cache1, c_pos := pos1\<rparr>))"

text \<open>A sequence of \<open>putValue\<close> calls; the first exception ends it.\<close>

fun FIFOCache_putValues :: "'a FIFOCache \<Rightarrow> (int \<times> 'a) list \<Rightarrow> error + 'a FIFOCache" where
  "FIFOCache_putValues c [] = Inr c"
| "FIFOCache_putValues c ((p, v) # kvs) =
     (case FIFOCache_putValue c p v of
        Inl e \<Rightarrow> Inl e
      | Inr c' \<Rightarrow> FIFOCache_putValues c' kvs)"

text \<open>
  The calls a client can make on a cache, and a run of them from a given cache: the
  result is the first exception, or the final cache with the values the calls returned.
\<close>

datatype 'a cache_call = IsCached int | GetValue int 'a | PutValue int 'a

datatype 'a cache_ret = RBool bool | RValue 'a | RUnit

fun FIFOCache_call :: "'a FIFOCache \<Rightarrow> 'a cache_call \<Rightarrow> error + ('a cache_ret \<times> 'a FIFOCache)" where
  "FIFOCache_call c (IsCached p) = Inr (RBool (FIFOCache_isCached c p), c)"
| "FIFOCache_call c (GetValue p d) = Inr (RValue (FIFOCache_getValue c p d), c)"
| "FIFOCache_call c (PutValue p v) =
     (case FIFOCache_putValue c p v of Inl e \<Rightarrow> Inl e | Inr c' \<Rightarrow> Inr (RUnit, c'))"

fun FIFOCache_calls :: "'a FIFOCache \<Rightarrow> 'a cache_call list \<Rightarrow> error + ('a cache_ret list \<times> 'a FIFOCache)" where
  "FIFOCache_calls c [] = Inr ([], c)"
| "FIFOCache_calls c (x # xs) =
     (case FIFOCache_call c x of
        Inl e \<Rightarrow> Inl e
      | Inr (r, c') \<Rightarrow>
          (case FIFOCache_calls c' xs of
             Inl e \<Rightarrow> Inl e
           | Inr (rs, c'') \<Rightarrow> Inr (r # rs, c'')))"

text \<open>\<open>NoCache\<close> has no fields; the \<open>Cache\<close> interface dispatches on the variant.\<close>

datatype 'a cache = FIFO "'a FIFOCache" | NoCache

fun isCached :: "'a cache \<Rightarrow> int \<Rightarrow> bool" where
  "isCached (FIFO c) p = FIFOCache_isCached c p"
| "isCached NoCache p = False"

fun getValue :: "'a cache \<Rightarrow> int \<Rightarrow> 'a \<Rightarrow> 'a" where
  "getValue (FIFO c) p dflt = FIFOCache_getValue c p dflt"
| "getValue NoCache p dflt = dflt"

fun putValue :: "'a cache \<Rightarrow> int \<Rightarrow> 'a \<Rightarrow> error + 'a cache" where
  "putValue (FIFO c) p v =
     (case FIFOCache_putValue c p v of Inl e \<Rightarrow> Inl e | Inr c' \<Rightarrow> Inr (FIFO c'))"
| "putValue NoCache p v = Inr NoCache"

section \<open>technical/__init__.py: EventWindow\<close>

text \<open>
  \<open>collections.deque(maxlen=n).append(x)\<close>: the new element goes to the right end and,
  when the deque has grown beyond \<open>maxlen\<close>, the leftmost element is dropped.
\<close>

definition deque_append :: "int \<Rightarrow> 'a list \<Rightarrow> 'a \<Rightarrow> 'a list" where
  "deque_append maxlen xs x =
     (let ys = xs @ [x] in if int (length ys) > maxlen then tl ys else ys)"

text \<open>
  \<open>EventWindow\<close>: the fields \<open>__values\<close> (the deque, whose \<open>maxlen\<close> is the window size)
  and \<open>__windowSize\<close>. A sample is \<open>None\<close> or a value; Python lets the deque hold either,
  so its elements are options here. The subclasses of \<open>EventWindow\<close> are record extensions.
\<close>

record 'a EventWindow =
  ew_values :: "'a option list"
  ew_windowSize :: int

definition EventWindow_init :: "int \<Rightarrow> error + 'a EventWindow" where
  "EventWindow_init windowSize =
     (if windowSize > 0 then Inr \<lparr>ew_values = [], ew_windowSize = windowSize\<rparr>
      else Inl AssertionError)"

definition EventWindow_onNewValue ::
  "('a, 'm) EventWindow_scheme \<Rightarrow> 'a option \<Rightarrow> ('a, 'm) EventWindow_scheme" where
  "EventWindow_onNewValue w v =
     (if v \<noteq> None then w\<lparr>ew_values := deque_append (ew_windowSize w) (ew_values w) v\<rparr>
      else w)"

fun EventWindow_run ::
  "('a, 'm) EventWindow_scheme \<Rightarrow> 'a option list \<Rightarrow> ('a, 'm) EventWindow_scheme" where
  "EventWindow_run w [] = w"
| "EventWindow_run w (v # vs) = EventWindow_run (EventWindow_onNewValue w v) vs"

text \<open>The samples of a sequence that are present, in order.\<close>

fun present :: "'a option list \<Rightarrow> 'a list" where
  "present [] = []"
| "present (None # vs) = present vs"
| "present (Some x # vs) = x # present vs"

text \<open>
  A subclass overrides \<open>onNewValue\<close> with a method that can raise. \<open>feed\<close> pushes a
  sequence of samples through such a method, stopping at the first exception.
\<close>

fun feed :: "('w \<Rightarrow> 's \<Rightarrow> error + 'w) \<Rightarrow> 'w \<Rightarrow> 's list \<Rightarrow> error + 'w" where
  "feed onNewValue w [] = Inr w"
| "feed onNewValue w (v # vs) =
     (case onNewValue w v of
        Inl e \<Rightarrow> Inl e
      | Inr w' \<Rightarrow> feed onNewValue w' vs)"

text \<open>
  \<open>EventBasedFilter.__onNewValue\<close>: for each new value of the filtered series, let the
  event window calculate, read its value and append that to the filter's own series.
  The result is what has been appended after the whole sequence.
\<close>

fun EventBasedFilter_onNewValues ::
  "('w \<Rightarrow> 's \<Rightarrow> error + 'w) \<Rightarrow> ('w \<Rightarrow> error + 'r) \<Rightarrow> 'w \<Rightarrow> 's list \<Rightarrow> error + 'r list" where
  "EventBasedFilter_onNewValues onNewValue getV w [] = Inr []"
| "EventBasedFilter_onNewValues onNewValue getV w (v # vs) =
     (case onNewValue w v of
        Inl e \<Rightarrow> Inl e
      | Inr w' \<Rightarrow>
          (case getV w' of
             Inl e \<Rightarrow> Inl e
           | Inr newValue \<Rightarrow>
               (case EventBasedFilter_onNewValues onNewValue getV w' vs of
                  Inl e \<Rightarrow> Inl e
                | Inr rest \<Rightarrow> Inr (newValue # rest))))"

section \<open>technical/__init__.py: TechnicalIndicatorBase\<close>

text \<open>
  \<open>TechnicalIndicatorBase\<close>: the fields \<open>__windowSize\<close> and \<open>__cache\<close>. The field
  \<open>ti_calcCalls\<close> is not in the source: it counts the invocations of \<open>calculateValue\<close>,
  so that statements about how often the computation runs can be written down.
\<close>

record 'v TechnicalIndicatorBase =
  ti_windowSize :: int
  ti_cache :: "'v pyval cache"
  ti_calcCalls :: nat

definition DefaultCacheSize :: int where
  "DefaultCacheSize = 512"

definition TechnicalIndicatorBase_init :: "int \<Rightarrow> int \<Rightarrow> error + 'v TechnicalIndicatorBase" where
  "TechnicalIndicatorBase_init windowSize cacheSize =
     (if \<not> windowSize > 0 then Inl AssertionError
      else if cacheSize > 0 then
        (case FIFOCache_init cacheSize of
           Inl e \<Rightarrow> Inl e
         | Inr c \<Rightarrow> Inr \<lparr>ti_windowSize = windowSize, ti_cache = FIFO c, ti_calcCalls = 0\<rparr>)
      else Inr \<lparr>ti_windowSize = windowSize, ti_cache = NoCache, ti_calcCalls = 0\<rparr>)"

text \<open>
  The methods \<open>getFirstValidPos\<close>, \<open>getLength\<close> and \<open>calculateValue\<close> are left to the
  subclasses and to the data series being filtered; they are parameters of a call, as they
  stand when the call is made. \<open>calculateValue\<close> returns a value or \<open>None\<close>.
\<close>

record 'v series_env =
  getFirstValidPos :: int
  getLength :: int
  calculateValue :: "int \<Rightarrow> int \<Rightarrow> 'v option"

fun pyval_of :: "'v option \<Rightarrow> 'v pyval" where
  "pyval_of None = PyNone"
| "pyval_of (Some v) = Val v"

definition getValueAbsolute ::
  "'v series_env \<Rightarrow> 'v TechnicalIndicatorBase \<Rightarrow> int
     \<Rightarrow> error + ('v pyval \<times> 'v TechnicalIndicatorBase)" where
  "getValueAbsolute env s p =
     (if p < getFirstValidPos env \<or> p \<ge> getLength env then Inr (PyNone, s)
      else
        let ret = getValue (ti_cache s) p ValueNotCached in
        if ret = ValueNotCached then
          let firstPos = p - ti_windowSize s + 1 in
          if \<not> firstPos \<ge> 0 then Inl AssertionError
          else
            let ret = pyval_of (calculateValue env firstPos p);
                s1 = s\<lparr>ti_calcCalls := ti_calcCalls s + 1\<rparr>
            in if ret \<noteq> PyNone then
                 (case putValue (ti_cache s1) p ret of
                    Inl e \<Rightarrow> Inl e
                  | Inr c \<Rightarrow> Inr (ret, s1\<lparr>ti_cache := c\<rparr>))
               else Inr (ret, s1)
        else Inr (ret, s))"

text \<open>
  A history of \<open>getValueAbsolute\<close> calls, each with the environment of its moment (the
  filtered series may have grown in between); the results are collected in call order.
\<close>

fun getValueAbsolutes ::
  "'v TechnicalIndicatorBase \<Rightarrow> ('v series_env \<times> int) list
     \<Rightarrow> error + ('v pyval list \<times> 'v TechnicalIndicatorBase)" where
  "getValueAbsolutes s [] = Inr ([], s)"
| "getValueAbsolutes s ((env, p) # cs) =
     (case getValueAbsolute env s p of
        Inl e \<Rightarrow> Inl e
      | Inr (r, s') \<Rightarrow>
          (case getValueAbsolutes s' cs of
             Inl e \<Rightarrow> Inl e
           | Inr (rs, s'') \<Rightarrow> Inr (r # rs, s'')))"

text \<open>
  \<open>DataSeriesFilter\<close> constructs the base with the default cache size and fixes the first
  valid position from the window size and the first valid position of the filtered series.
\<close>

definition DataSeriesFilter_init :: "int \<Rightarrow> error + 'v TechnicalIndicatorBase" where
  "DataSeriesFilter_init windowSize = TechnicalIndicatorBase_init windowSize DefaultCacheSize"

definition DataSeriesFilter_firstValidPos :: "int \<Rightarrow> int \<Rightarrow> int" where
  "DataSeriesFilter_firstValidPos windowSize dataSeriesFirstValidPos =
     (windowSize - 1) + dataSeriesFirstValidPos"

section \<open>technical/ma.py\<close>

text \<open>Indexing a Python sequence: a negative index counts from the right end.\<close>

definition py_index :: "'a list \<Rightarrow> int \<Rightarrow> error + 'a" where
  "py_index xs i =
     (let n = int (length xs) in
      if 0 \<le> i \<and> i < n then Inr (xs ! nat i)
      else if - n \<le> i \<and> i < 0 then Inr (xs ! nat (n + i))
      else Inl IndexError)"

text \<open>
  The arithmetic of the source is that of Python floats, IEEE 754 doubles: each operation
  returns the exact result rounded to the nearest double, ties to even. \<open>round_double\<close>
  is that rounding on the rationals (53 significant bits, exponents down to the
  subnormal range; overflow to infinity is not modelled). The numeric functions of
  \<open>ma.py\<close> are translated with every arithmetic operation passed through a rounding
  function \<open>rnd\<close>: with \<open>round_double\<close> they are the code as it runs; with the identity
  they compute in exact arithmetic, and these instances carry the unadorned names.
\<close>

fun bit_length :: "nat \<Rightarrow> nat" where
  "bit_length n = (if n = 0 then 0 else bit_length (n div 2) + 1)"

definition ilog2 :: "rat \<Rightarrow> int" where
  "ilog2 x =
     (if 1 \<le> x then int (bit_length (nat \<lfloor>x\<rfloor>)) - 1
      else - int (bit_length (nat (\<lceil>1 / x\<rceil> - 1))))"

definition pow2 :: "int \<Rightarrow> rat" where
  "pow2 k = (if 0 \<le> k then 2 ^ nat k else 1 / 2 ^ nat (- k))"

definition round_half_even :: "rat \<Rightarrow> int" where
  "round_half_even q =
     (let f = \<lfloor>q\<rfloor>; d = q - of_int f
      in if d < 1 / 2 then f else if 1 / 2 < d then f + 1 else if even f then f else f + 1)"

definition round_double :: "rat \<Rightarrow> rat" where
  "round_double x =
     (if x = 0 then 0
      else
        let e = max (ilog2 \<bar>x\<bar>) (- 1022);
            ulp = pow2 (e - 52)
        in of_int (round_half_even (x / ulp)) * ulp)"

text \<open>
  The loop of \<open>calculate_sma\<close>: \<open>Inr None\<close> is the early \<open>return None\<close>, \<open>Inr (Some accum)\<close>
  the sum when the loop has run to its end.
\<close>

function calculate_sma_loop_rounded ::
  "(rat \<Rightarrow> rat) \<Rightarrow> rat option list \<Rightarrow> int \<Rightarrow> int \<Rightarrow> rat \<Rightarrow> error + rat option" where
  "calculate_sma_loop_rounded rnd vals i endI accum =
     (if i < endI then
        (case py_index vals i of
           Inl e \<Rightarrow> Inl e
         | Inr None \<Rightarrow> Inr None
         | Inr (Some v) \<Rightarrow> calculate_sma_loop_rounded rnd vals (i + 1) endI (rnd (accum + v)))
      else Inr (Some accum))"
  by pat_completeness auto
termination
  by (relation "measure (\<lambda>(rnd, vals, i, endI, accum). nat (endI - i))") auto

definition calculate_sma_rounded ::
  "(rat \<Rightarrow> rat) \<Rightarrow> rat option list \<Rightarrow> int \<Rightarrow> int \<Rightarrow> error + rat option" where
  "calculate_sma_rounded rnd vals beginI endI =
     (case calculate_sma_loop_rounded rnd vals beginI endI 0 of
        Inl e \<Rightarrow> Inl e
      | Inr None \<Rightarrow> Inr None
      | Inr (Some accum) \<Rightarrow>
          if endI - beginI = 0 then Inl ZeroDivisionError
          else Inr (Some (rnd (accum / rnd (of_int (endI - beginI))))))"

abbreviation calculate_sma_loop :: "rat option list \<Rightarrow> int \<Rightarrow> int \<Rightarrow> rat \<Rightarrow> error + rat option" where
  "calculate_sma_loop \<equiv> calculate_sma_loop_rounded (\<lambda>x. x)"

definition calculate_sma :: "rat option list \<Rightarrow> int \<Rightarrow> int \<Rightarrow> error + rat option" where
  "calculate_sma = calculate_sma_rounded (\<lambda>x. x)"

text \<open>\<open>SMAEventWindow\<close>: an \<open>EventWindow\<close> with the field \<open>__value\<close>.\<close>

record SMAEventWindow = "rat EventWindow" +
  sma_value :: "rat option"

definition SMAEventWindow_init :: "int \<Rightarrow> error + SMAEventWindow" where
  "SMAEventWindow_init period =
     (if \<not> period > 0 then Inl AssertionError
      else
        (case EventWindow_init period of
           Inl e \<Rightarrow> Inl e
         | Inr w \<Rightarrow>
             Inr \<lparr>ew_values = ew_values w, ew_windowSize = ew_windowSize w, sma_value = None\<rparr>))"

definition SMAEventWindow_onNewValue_rounded ::
  "(rat \<Rightarrow> rat) \<Rightarrow> SMAEventWindow \<Rightarrow> rat option \<Rightarrow> error + SMAEventWindow" where
  "SMAEventWindow_onNewValue_rounded rnd w v =
     (case (if length (ew_values w) > 0 then
              (case py_index (ew_values w) 0 of
                 Inl e \<Rightarrow> Inl e
               | Inr f \<Rightarrow> if f \<noteq> None then Inr f else Inl AssertionError)
            else Inr None) of
        Inl e \<Rightarrow> Inl e
      | Inr firstValue \<Rightarrow>
          let w1 = EventWindow_onNewValue w v in
          if v \<noteq> None \<and> int (length (ew_values w1)) = ew_windowSize w1 then
            (if sma_value w1 = None then
               (case calculate_sma_rounded rnd (ew_values w1) 0 (ew_windowSize w1) of
                  Inl e \<Rightarrow> Inl e
                | Inr r \<Rightarrow> Inr (w1\<lparr>sma_value := r\<rparr>))
             else if ew_windowSize w1 = 0 then Inl ZeroDivisionError
             else
               (case firstValue of
                  None \<Rightarrow> Inl TypeError
                | Some f \<Rightarrow>
                    Inr (w1\<lparr>sma_value :=
                           Some (rnd (rnd (the (sma_value w1)
                                             + rnd (the v / rnd (of_int (ew_windowSize w1))))
                                        - rnd (f / rnd (of_int (ew_windowSize w1)))))\<rparr>)))
          else Inr w1)"

definition SMAEventWindow_onNewValue :: "SMAEventWindow \<Rightarrow> rat option \<Rightarrow> error + SMAEventWindow" where
  "SMAEventWindow_onNewValue = SMAEventWindow_onNewValue_rounded (\<lambda>x. x)"

definition SMAEventWindow_getValue :: "SMAEventWindow \<Rightarrow> rat option" where
  "SMAEventWindow_getValue w = sma_value w"

abbreviation SMAEventWindow_run :: "SMAEventWindow \<Rightarrow> rat option list \<Rightarrow> error + SMAEventWindow" where
  "SMAEventWindow_run \<equiv> feed SMAEventWindow_onNewValue"

text \<open>
  The filter \<open>SMA(dataSeries, period)\<close>: what it has appended to its own series once the
  samples have been appended to the filtered series, one after the other.
\<close>

definition SMA_rounded :: "(rat \<Rightarrow> rat) \<Rightarrow> int \<Rightarrow> rat option list \<Rightarrow> error + rat option list" where
  "SMA_rounded rnd period samples =
     (case SMAEventWindow_init period of
        Inl e \<Rightarrow> Inl e
      | Inr w \<Rightarrow>
          EventBasedFilter_onNewValues (SMAEventWindow_onNewValue_rounded rnd)
            (\<lambda>w. Inr (SMAEventWindow_getValue w)) w samples)"

definition SMA :: "int \<Rightarrow> rat option list \<Rightarrow> error + rat option list" where
  "SMA = SMA_rounded (\<lambda>x. x)"

text \<open>
  \<open>EMAEventWindow\<close>: an \<open>EventWindow\<close> with the fields \<open>__multiplier\<close> and \<open>__value\<close>.
  Its arithmetic is written in exact arithmetic only (the identity as rounding).
\<close>

record EMAEventWindow = "rat EventWindow" +
  ema_multiplier :: rat
  ema_value :: "rat option"

definition EMAEventWindow_init :: "int \<Rightarrow> error + EMAEventWindow" where
  "EMAEventWindow_init period =
     (if \<not> period > 1 then Inl AssertionError
      else
        (case EventWindow_init period of
           Inl e \<Rightarrow> Inl e
         | Inr w \<Rightarrow>
             if period + 1 = 0 then Inl ZeroDivisionError
             else
               Inr \<lparr>ew_values = ew_values w, ew_windowSize = ew_windowSize w,
                    ema_multiplier = 2 / of_int (period + 1), ema_value = None\<rparr>))"

definition EMAEventWindow_onNewValue :: "EMAEventWindow \<Rightarrow> rat option \<Rightarrow> error + EMAEventWindow" where
  "EMAEventWindow_onNewValue w v =
     (let w1 = EventWindow_onNewValue w v in
      if v \<noteq> None \<and> int (length (ew_values w1)) = ew_windowSize w1 then
        (if ema_value w1 = None then
           (case calculate_sma (ew_values w1) 0 (int (length (ew_values w1))) of
              Inl e \<Rightarrow> Inl e
            | Inr r \<Rightarrow> Inr (w1\<lparr>ema_value := r\<rparr>))
         else
           Inr (w1\<lparr>ema_value :=
                  Some ((the v - the (ema_value w1)) * ema_multiplier w1 + the (ema_value w1))\<rparr>))
      else Inr w1)"

definition EMAEventWindow_getValue :: "EMAEventWindow \<Rightarrow> rat option" where
  "EMAEventWindow_getValue w = ema_value w"

abbreviation EMAEventWindow_run :: "EMAEventWindow \<Rightarrow> rat option list \<Rightarrow> error + EMAEventWindow" where
  "EMAEventWindow_run \<equiv> feed EMAEventWindow_onNewValue"

definition EMA :: "int \<Rightarrow> rat option list \<Rightarrow> error + rat option list" where
  "EMA period samples =
     (case EMAEventWindow_init period of
        Inl e \<Rightarrow> Inl e
      | Inr w \<Rightarrow>
          EventBasedFilter_onNewValues EMAEventWindow_onNewValue
            (\<lambda>w. Inr (EMAEventWindow_getValue w)) w samples)"

text \<open>
  \<open>WMAEventWindow\<close>: an \<open>EventWindow\<close> with the field \<open>__weights\<close>. It inherits
  \<open>onNewValue\<close> and computes its value from the buffer on every \<open>getValue\<close>.
\<close>

record WMAEventWindow = "rat EventWindow" +
  wma_weights :: "rat list"

definition WMAEventWindow_init :: "rat list \<Rightarrow> error + WMAEventWindow" where
  "WMAEventWindow_init weights =
     (if \<not> length weights > 0 then Inl AssertionError
      else
        (case EventWindow_init (int (length weights)) of
           Inl e \<Rightarrow> Inl e
         | Inr w \<Rightarrow>
             Inr \<lparr>ew_values = ew_values w, ew_windowSize = ew_windowSize w,
                  wma_weights = weights\<rparr>))"

fun WMA_loop :: "rat option list \<Rightarrow> rat list \<Rightarrow> nat \<Rightarrow> rat \<Rightarrow> rat \<Rightarrow> error + (rat \<times> rat)" where
  "WMA_loop [] ws i accum weightSum = Inr (accum, weightSum)"
| "WMA_loop (v # rest) ws i accum weightSum =
     (if i < length ws then
        (case v of
           None \<Rightarrow> Inl TypeError
         | Some x \<Rightarrow> WMA_loop rest ws (Suc i) (accum + x * ws ! i) (weightSum + ws ! i))
      else Inl IndexError)"

definition WMAEventWindow_getValue :: "WMAEventWindow \<Rightarrow> error + rat option" where
  "WMAEventWindow_getValue w =
     (if int (length (ew_values w)) = ew_windowSize w then
        (case WMA_loop (ew_values w) (wma_weights w) 0 0 0 of
           Inl e \<Rightarrow> Inl e
         | Inr (accum, weightSum) \<Rightarrow>
             if weightSum = 0 then Inl ZeroDivisionError
             else Inr (Some (accum / weightSum)))
      else Inr None)"

section \<open>Invariants and observations\<close>

text \<open>
  The dict and the log of a \<open>FIFOCache\<close> agree when the log lists the keys of the dict,
  each once, and is no longer than the size. \<open>fifo_put_fresh\<close> is what \<open>putValue\<close>
  amounts to on such a cache for a position that is not cached.
\<close>

definition fifo_sync :: "'a FIFOCache \<Rightarrow> bool" where
  "fifo_sync c =
     (c_size c > 0 \<and> distinct (c_pos c) \<and> set (c_pos c) = dom (c_cache c)
      \<and> int (length (c_pos c)) \<le> c_size c)"

definition fifo_put_fresh :: "'a FIFOCache \<Rightarrow> int \<Rightarrow> 'a \<Rightarrow> 'a FIFOCache" where
  "fifo_put_fresh c p v =
     (if int (length (c_pos c)) < c_size c
      then c\<lparr>c_cache := (c_cache c)(p \<mapsto> v), c_pos := c_pos c @ [p]\<rparr>
      else c\<lparr>c_cache := ((c_cache c)(p \<mapsto> v))(hd (c_pos c) := None),
             c_pos := tl (c_pos c) @ [p]\<rparr>)"

text \<open>
  A call sequence that never puts a value at a position that is cached at that moment
  (the only way \<open>getValueAbsolute\<close> uses the cache).
\<close>

fun no_overwrite :: "'a FIFOCache \<Rightarrow> 'a cache_call list \<Rightarrow> bool" where
  "no_overwrite c [] = True"
| "no_overwrite c (PutValue p v # xs) =
     (\<not> FIFOCache_isCached c p \<and> no_overwrite (fifo_put_fresh c p v) xs)"
| "no_overwrite c (IsCached p # xs) = no_overwrite c xs"
| "no_overwrite c (GetValue p d # xs) = no_overwrite c xs"

text \<open>
  Observations on a cache built by \<open>FIFOCache(C)\<close> followed by a sequence of \<open>putValue\<close>
  calls: the final cache (or the exception), whether a position is cached at the end, and
  whether the last insertion evicted a position (cached before it, not cached after it).
\<close>

definition FIFOCache_fresh_puts :: "int \<Rightarrow> (int \<times> 'a) list \<Rightarrow> error + 'a FIFOCache" where
  "FIFOCache_fresh_puts C kvs =
     (case FIFOCache_init C of Inl e \<Rightarrow> Inl e | Inr c \<Rightarrow> FIFOCache_putValues c kvs)"

definition cached_after :: "int \<Rightarrow> (int \<times> 'a) list \<Rightarrow> int \<Rightarrow> bool option" where
  "cached_after C kvs k =
     (case FIFOCache_fresh_puts C kvs of
        Inl e \<Rightarrow> None
      | Inr c \<Rightarrow> Some (FIFOCache_isCached c k))"

definition evicted_by_last :: "int \<Rightarrow> (int \<times> 'a) list \<Rightarrow> int \<times> 'a \<Rightarrow> int \<Rightarrow> bool" where
  "evicted_by_last C kvs kv k =
     (cached_after C kvs k = Some True \<and> cached_after C (kvs @ [kv]) k = Some False)"

text \<open>
  What a cache holds at a position, and the invariant of the cache of an indicator: the
  dict and the log agree, and every stored value is a computed value (neither \<open>None\<close>
  nor the sentinel).
\<close>

fun stored :: "'a cache \<Rightarrow> int \<Rightarrow> 'a option" where
  "stored (FIFO c) p = c_cache c p"
| "stored NoCache p = None"

fun cache_ok :: "'v pyval cache \<Rightarrow> bool" where
  "cache_ok (FIFO c) = (fifo_sync c \<and> (\<forall>p v. c_cache c p = Some v \<longrightarrow> (\<exists>x. v = Val x)))"
| "cache_ok NoCache = True"

text \<open>
  The last \<open>n\<close> elements of a list; the invariant of an event window (a positive window
  size, a buffer no longer than it, no \<open>None\<close> in the buffer); and the invariant of the
  simple moving average: the held value is the average of the buffer when the buffer is
  full, and \<open>None\<close> before.
\<close>

definition last_n :: "nat \<Rightarrow> 'a list \<Rightarrow> 'a list" where
  "last_n n xs = drop (length xs - n) xs"

definition ew_inv :: "('a, 'm) EventWindow_scheme \<Rightarrow> bool" where
  "ew_inv w =
     (0 < ew_windowSize w \<and> int (length (ew_values w)) \<le> ew_windowSize w
      \<and> None \<notin> set (ew_values w))"

definition sma_inv :: "SMAEventWindow \<Rightarrow> bool" where
  "sma_inv w =
     (ew_inv w \<and>
      sma_value w =
        (if int (length (ew_values w)) = ew_windowSize w
         then Some (sum_list (present (ew_values w)) / of_int (ew_windowSize w))
         else None))"

text \<open>
  The invariant of the exponential moving average: the held value is \<open>None\<close> exactly
  while the buffer is not full.
\<close>

definition ema_inv :: "EMAEventWindow \<Rightarrow> bool" where
  "ema_inv w =
     (ew_inv w \<and> (ema_value w = None) = (int (length (ew_values w)) < ew_windowSize w))"

section \<open>The exact-arithmetic instances\<close>

text \<open>With the identity as rounding the definitions read as the source does.\<close>

lemma calculate_sma_unfold:
  "calculate_sma vals beginI endI =
     (case calculate_sma_loop vals beginI endI 0 of
        Inl e \<Rightarrow> Inl e
      | Inr None \<Rightarrow> Inr None
      | Inr (Some accum) \<Rightarrow>
          if endI - beginI = 0 then Inl ZeroDivisionError
          else Inr (Some (accum / of_int (endI - beginI))))"
  by (simp only: calculate_sma_def calculate_sma_rounded_def)

lemma SMAEventWindow_onNewValue_unfold:
  "SMAEventWindow_onNewValue w v =
     (case (if length (ew_values w) > 0 then
              (case py_index (ew_values w) 0 of
                 Inl e \<Rightarrow> Inl e
               | Inr f \<Rightarrow> if f \<noteq> None then Inr f else Inl AssertionError)
            else Inr None) of
        Inl e \<Rightarrow> Inl e
      | Inr firstValue \<Rightarrow>
          let w1 = EventWindow_onNewValue w v in
          if v \<noteq> None \<and> int (length (ew_values w1)) = ew_windowSize w1 then
            (if sma_value w1 = None then
               (case calculate_sma (ew_values w1) 0 (ew_windowSize w1) of
                  Inl e \<Rightarrow> Inl e
                | Inr r \<Rightarrow> Inr (w1\<lparr>sma_value := r\<rparr>))
             else if ew_windowSize w1 = 0 then Inl ZeroDivisionError
             else
               (case firstValue of
                  None \<Rightarrow> Inl TypeError
                | Some f \<Rightarrow>
                    Inr (w1\<lparr>sma_value :=
                           Some (the (sma_value w1) + the v / of_int (ew_windowSize w1)
                                   - f / of_int (ew_windowSize w1))\<rparr>)))
          else Inr w1)"
  by (simp only: SMAEventWindow_onNewValue_def SMAEventWindow_onNewValue_rounded_def
        calculate_sma_def)

lemma SMA_unfold:
  "SMA period samples =
     (case SMAEventWindow_init period of
        Inl e \<Rightarrow> Inl e
      | Inr w \<Rightarrow>
          EventBasedFilter_onNewValues SMAEventWindow_onNewValue
            (\<lambda>w. Inr (SMAEventWindow_getValue w)) w samples)"
  by (simp only: SMA_def SMA_rounded_def SMAEventWindow_onNewValue_def)

section \<open>Properties of the FIFO cache\<close>

lemma fifo_sync_init: "sz > 0 \<Longrightarrow> FIFOCache_init sz = Inr c \<Longrightarrow> fifo_sync c"
  by (auto simp: FIFOCache_init_def fifo_sync_def)

lemma fifo_sync_card:
  assumes "fifo_sync c" "p \<notin> dom (c_cache c)"
  shows "card (dom ((c_cache c)(p \<mapsto> v))) = Suc (length (c_pos c))"
proof -
  have "dom ((c_cache c)(p \<mapsto> v)) = insert p (set (c_pos c))"
    using assms by (simp add: fifo_sync_def)
  moreover have "p \<notin> set (c_pos c)" using assms by (simp add: fifo_sync_def)
  moreover have "card (set (c_pos c)) = length (c_pos c)"
    using assms distinct_card[of "c_pos c"] by (simp only: fifo_sync_def)
  ultimately show ?thesis by simp
qed

lemma putValue_fresh:
  assumes "fifo_sync c" "p \<notin> dom (c_cache c)"
  shows "FIFOCache_putValue c p v = Inr (fifo_put_fresh c p v)"
proof (cases "int (length (c_pos c)) < c_size c")
  case True
  then show ?thesis
    using fifo_sync_card[OF assms, of v]
    by (simp add: FIFOCache_putValue_def fifo_put_fresh_def Let_def)
next
  case False
  then have len: "int (length (c_pos c)) = c_size c"
    using assms by (simp add: fifo_sync_def)
  then obtain k rest where kr: "c_pos c = k # rest"
    using assms by (cases "c_pos c") (auto simp: fifo_sync_def)
  have "k \<in> dom (c_cache c)" using assms kr by (auto simp: fifo_sync_def)
  then show ?thesis
    using fifo_sync_card[OF assms, of v] len kr False
    by (auto simp: FIFOCache_putValue_def fifo_put_fresh_def Let_def)
qed

lemma fifo_put_fresh_sync:
  assumes "fifo_sync c" "p \<notin> dom (c_cache c)"
  shows "fifo_sync (fifo_put_fresh c p v)"
proof (cases "int (length (c_pos c)) < c_size c")
  case True
  then show ?thesis using assms by (auto simp: fifo_sync_def fifo_put_fresh_def)
next
  case False
  then have len: "int (length (c_pos c)) = c_size c"
    using assms by (simp add: fifo_sync_def)
  then obtain k rest where kr: "c_pos c = k # rest"
    using assms by (cases "c_pos c") (auto simp: fifo_sync_def)
  show ?thesis using assms kr len False
    by (auto simp: fifo_sync_def fifo_put_fresh_def)
qed


lemma fifo_put_fresh_size [simp]: "c_size (fifo_put_fresh c p v) = c_size c"
  by (simp add: fifo_put_fresh_def)

lemma fifo_sync_isCached: "fifo_sync c \<Longrightarrow> FIFOCache_isCached c k = (k \<in> set (c_pos c))"
  by (simp add: fifo_sync_def FIFOCache_isCached_def)

lemma putValues_append:
  "FIFOCache_putValues c (kvs @ [(p, v)]) =
     (case FIFOCache_putValues c kvs of Inl e \<Rightarrow> Inl e | Inr c' \<Rightarrow> FIFOCache_putValue c' p v)"
  by (induction c kvs rule: FIFOCache_putValues.induct) (auto split: sum.splits)

lemma putValues_distinct:
  assumes "fifo_sync c" "distinct (map fst kvs)" "set (map fst kvs) \<inter> dom (c_cache c) = {}"
  shows "\<exists>c'. FIFOCache_putValues c kvs = Inr c' \<and> fifo_sync c' \<and> c_size c' = c_size c
           \<and> c_pos c' = drop (length (c_pos c) + length kvs - nat (c_size c)) (c_pos c @ map fst kvs)"
  using assms
proof (induction kvs arbitrary: c)
  case Nil
  then show ?case by (auto simp: fifo_sync_def)
next
  case (Cons kv kvs)
  obtain p v where kv: "kv = (p, v)" by (cases kv)
  let ?c1 = "fifo_put_fresh c p v"
  have fresh: "p \<notin> dom (c_cache c)" using Cons.prems kv by auto
  have put: "FIFOCache_putValue c p v = Inr ?c1"
    by (rule putValue_fresh[OF Cons.prems(1) fresh])
  have sync1: "fifo_sync ?c1" by (rule fifo_put_fresh_sync[OF Cons.prems(1) fresh])
  have dom1: "dom (c_cache ?c1) \<subseteq> insert p (dom (c_cache c))"
    by (auto simp: fifo_put_fresh_def split: if_splits)
  have disj: "set (map fst kvs) \<inter> dom (c_cache ?c1) = {}"
    using Cons.prems kv dom1 by auto
  have dist: "distinct (map fst kvs)" using Cons.prems by simp
  from Cons.IH[OF sync1 dist disj] obtain c' where
    c': "FIFOCache_putValues ?c1 kvs = Inr c'" "fifo_sync c'" "c_size c' = c_size ?c1"
        "c_pos c' = drop (length (c_pos ?c1) + length kvs - nat (c_size ?c1)) (c_pos ?c1 @ map fst kvs)"
    by blast
  have pos_eq: "drop (length (c_pos ?c1) + length kvs - nat (c_size ?c1)) (c_pos ?c1 @ map fst kvs)
        = drop (length (c_pos c) + length (kv # kvs) - nat (c_size c)) (c_pos c @ map fst (kv # kvs))"
  proof (cases "int (length (c_pos c)) < c_size c")
    case True
    then show ?thesis by (simp add: fifo_put_fresh_def kv)
  next
    case False
    then have len: "length (c_pos c) = nat (c_size c)"
      using Cons.prems(1) unfolding fifo_sync_def by linarith
    then obtain k rest where kr: "c_pos c = k # rest"
      using Cons.prems(1) by (cases "c_pos c") (auto simp: fifo_sync_def)
    have pos1: "c_pos ?c1 = rest @ [p]" "c_size ?c1 = c_size c"
      using False kr by (simp_all add: fifo_put_fresh_def)
    have l1: "length (c_pos ?c1) + length kvs - nat (c_size ?c1) = length kvs"
      using pos1 len kr by simp
    have l2: "length (c_pos c) + length (kv # kvs) - nat (c_size c) = Suc (length kvs)"
      using len by simp
    show ?thesis unfolding l1 l2 using pos1 kr by (simp add: kv)
  qed
  show ?case using put c' pos_eq by (simp add: kv)
qed

lemma fresh_puts_distinct:
  assumes "0 < C" "distinct (map fst kvs)"
  shows "\<exists>c. FIFOCache_fresh_puts C kvs = Inr c \<and> fifo_sync c \<and> c_size c = C
           \<and> c_pos c = drop (length kvs - nat C) (map fst kvs)"
proof -
  let ?c0 = "\<lparr>c_size = C, c_cache = Map.empty, c_pos = []\<rparr> :: 'a FIFOCache"
  have init: "FIFOCache_init C = Inr ?c0" using assms by (simp add: FIFOCache_init_def)
  have "fifo_sync ?c0" using assms by (simp add: fifo_sync_def)
  from putValues_distinct[OF this assms(2)] show ?thesis
    by (simp add: FIFOCache_fresh_puts_def init)
qed

lemma fresh_puts_append:
  "FIFOCache_fresh_puts C (kvs @ [(p, v)]) =
     (case FIFOCache_fresh_puts C kvs of Inl e \<Rightarrow> Inl e | Inr c' \<Rightarrow> FIFOCache_putValue c' p v)"
  by (simp add: FIFOCache_fresh_puts_def putValues_append split: sum.splits)

text \<open>Without overwrites, no call of a sequence fails.\<close>

lemma FIFOCache_calls_no_overwrite:
  assumes "fifo_sync c" "no_overwrite c xs"
  shows "\<exists>rs c'. FIFOCache_calls c xs = Inr (rs, c') \<and> fifo_sync c'"
  using assms
proof (induction c xs rule: no_overwrite.induct)
  case (1 c)
  then show ?case by simp
next
  case (2 c p v xs)
  then have fresh: "p \<notin> dom (c_cache c)" by (simp add: FIFOCache_isCached_def)
  have "fifo_sync (fifo_put_fresh c p v)" by (rule fifo_put_fresh_sync[OF "2.prems"(1) fresh])
  with 2 obtain rs c' where "FIFOCache_calls (fifo_put_fresh c p v) xs = Inr (rs, c')" "fifo_sync c'"
    by auto
  then show ?case using putValue_fresh[OF "2.prems"(1) fresh, of v] by simp
next
  case (3 c p xs)
  then obtain rs c' where "FIFOCache_calls c xs = Inr (rs, c')" "fifo_sync c'" by auto
  then show ?case by simp
next
  case (4 c p d xs)
  then obtain rs c' where "FIFOCache_calls c xs = Inr (rs, c')" "fifo_sync c'" by auto
  then show ?case by simp
qed

lemma cached_after_sync:
  "FIFOCache_fresh_puts C kvs = Inr c \<Longrightarrow> fifo_sync c \<Longrightarrow>
     cached_after C kvs k = Some (k \<in> set (c_pos c))"
  by (simp add: cached_after_def fifo_sync_isCached)

text \<open>
  Claim C1 says that no sequence of \<open>isCached\<close>, \<open>getValue\<close> and \<open>putValue\<close> calls on
  a cache of positive size fails, overwriting \<open>putValue\<close> calls included. An overwrite
  leaves a second log entry for a key that the dict holds once; after the first entry has
  been used for an eviction, the second names a key that is gone, and the eviction that
  reaches it raises KeyError. With size 1: \<open>putValue(1, 10)\<close>, \<open>putValue(1, 11)\<close>,
  \<open>isCached(1)\<close>, \<open>putValue(2, 12)\<close>, \<open>getValue(1, 0)\<close> succeed, and the next call,
  \<open>putValue(3, 13)\<close>, raises KeyError.
\<close>

theorem FIFOCache_overwrite_KeyError:
  "FIFOCache_init 1 = Inr \<lparr>c_size = 1, c_cache = Map.empty, c_pos = []\<rparr>
   \<and> map_sum id fst
        (FIFOCache_calls \<lparr>c_size = 1, c_cache = Map.empty, c_pos = []\<rparr>
           [PutValue 1 (10::int), PutValue 1 11, IsCached 1, PutValue 2 12, GetValue 1 0])
       = Inr [RUnit, RUnit, RBool True, RUnit, RValue 0]
   \<and> FIFOCache_calls \<lparr>c_size = 1, c_cache = Map.empty, c_pos = []\<rparr>
        [PutValue 1 (10::int), PutValue 1 11, IsCached 1, PutValue 2 12, GetValue 1 0,
         PutValue 3 13]
       = Inl KeyError"
  by (simp add: FIFOCache_init_def FIFOCache_putValue_def FIFOCache_isCached_def
        FIFOCache_getValue_def Let_def)

text \<open>
  Claim C2, as stated: after \<open>C + 1\<close> distinct insertions and the re-insertion of the
  first position, the next insertion of a fresh position evicts the second position
  rather than the first. With size 1, positions 0 and 1, and the fresh position 2, the
  insertion of 2 evicts position 0, and does not evict position 1 (the re-insertion of
  0 had already evicted it). With size 2, positions 0, 1, 2 and the fresh position 3, the
  insertion of 3 evicts position 2, and again not position 1.
\<close>

theorem FIFOCache_eviction_order_counterexample:
  "evicted_by_last 1 [(0, 10::int), (1, 11), (0, 12)] (2, 13) 0 \<and>
   \<not> evicted_by_last 1 [(0, 10::int), (1, 11), (0, 12)] (2, 13) 1 \<and>
   evicted_by_last 2 [(0, 10::int), (1, 11), (2, 12), (0, 13)] (3, 14) 2 \<and>
   \<not> evicted_by_last 2 [(0, 10::int), (1, 11), (2, 12), (0, 13)] (3, 14) 1"
  by (simp add: evicted_by_last_def cached_after_def FIFOCache_fresh_puts_def FIFOCache_init_def
        FIFOCache_putValue_def FIFOCache_isCached_def Let_def)

text \<open>
  Claim C2, amended: for a cache of size \<open>C > 0\<close>, after \<open>putValue\<close> of \<open>C + 1\<close> distinct
  positions \<open>p\<^sub>0 \<dots> p\<^sub>C\<close>, \<open>p\<^sub>0\<close> is not cached and every \<open>p\<^sub>i\<close> with \<open>1 \<le> i \<le> C\<close> is.
  Re-inserting \<open>p\<^sub>0\<close> evicts \<open>p\<^sub>1\<close> and caches \<open>p\<^sub>0\<close> at the back of the eviction order:
  the next insertion of a fresh position evicts exactly one position, which is \<open>p\<^sub>2\<close>
  when \<open>C \<ge> 2\<close> and \<open>p\<^sub>0\<close> itself when \<open>C = 1\<close>.
\<close>

theorem FIFOCache_eviction_order:
  fixes kvs :: "(int \<times> 'a) list"
  assumes "0 < C" and "length kvs = nat C + 1" and "distinct (map fst kvs)"
    and "q \<notin> fst ` set kvs"
  shows "cached_after C kvs (fst (kvs ! 0)) = Some False
       \<and> (\<forall>i. 1 \<le> i \<and> i \<le> nat C \<longrightarrow> cached_after C kvs (fst (kvs ! i)) = Some True)
       \<and> evicted_by_last C kvs (fst (kvs ! 0), v) (fst (kvs ! 1))
       \<and> cached_after C (kvs @ [(fst (kvs ! 0), v)]) (fst (kvs ! 0)) = Some True
       \<and> evicted_by_last C (kvs @ [(fst (kvs ! 0), v)]) (q, w)
            (if C = 1 then fst (kvs ! 0) else fst (kvs ! 2))
       \<and> (\<forall>k. evicted_by_last C (kvs @ [(fst (kvs ! 0), v)]) (q, w) k
              \<longrightarrow> k = (if C = 1 then fst (kvs ! 0) else fst (kvs ! 2)))"
proof -
  obtain kv0 kv1 rest where kvs: "kvs = kv0 # kv1 # rest"
    using assms(1,2) by (cases kvs; cases "tl kvs") auto
  define p0 where "p0 = fst kv0"
  define p1 where "p1 = fst kv1"
  define rs where "rs = map fst rest"
  have lenrs: "Suc (length rs) = nat C" using assms(2) kvs by (simp add: rs_def)
  have dist: "p0 \<noteq> p1" "p0 \<notin> set rs" "p1 \<notin> set rs" "distinct rs"
    using assms(3) kvs by (auto simp: p0_def p1_def rs_def)
  have qf: "q \<noteq> p0" "q \<noteq> p1" "q \<notin> set rs"
    using assms(4) kvs by (auto simp: p0_def p1_def rs_def)
  \<comment> \<open>after the C + 1 insertions\<close>
  from fresh_puts_distinct[OF assms(1,3)] obtain c where
    c: "FIFOCache_fresh_puts C kvs = Inr c" "fifo_sync c" "c_size c = C"
       "c_pos c = drop (length kvs - nat C) (map fst kvs)"
    by blast
  have posc: "c_pos c = p1 # rs"
    using c(4) assms(2) kvs by (simp add: p1_def rs_def)
  have A: "cached_after C kvs k = Some (k \<in> set (p1 # rs))" for k
    using cached_after_sync[OF c(1,2)] posc by simp
  \<comment> \<open>re-inserting the first position\<close>
  have f0: "p0 \<notin> dom (c_cache c)"
    using c(2) posc dist unfolding fifo_sync_def by auto
  define c' where "c' = fifo_put_fresh c p0 v"
  have c'1: "FIFOCache_fresh_puts C (kvs @ [(p0, v)]) = Inr c'"
    by (simp add: fresh_puts_append c(1) putValue_fresh[OF c(2) f0] c'_def)
  have c'2: "fifo_sync c'" unfolding c'_def by (rule fifo_put_fresh_sync[OF c(2) f0])
  have posc': "c_pos c' = rs @ [p0]"
    using posc c(3) lenrs by (simp add: c'_def fifo_put_fresh_def)
  have B: "cached_after C (kvs @ [(p0, v)]) k = Some (k \<in> set (rs @ [p0]))" for k
    using cached_after_sync[OF c'1 c'2] posc' by simp
  \<comment> \<open>inserting a fresh position\<close>
  have fq: "q \<notin> dom (c_cache c')"
    using c'2 posc' qf unfolding fifo_sync_def by auto
  define c'' where "c'' = fifo_put_fresh c' q w"
  have c''1: "FIFOCache_fresh_puts C ((kvs @ [(p0, v)]) @ [(q, w)]) = Inr c''"
    unfolding fresh_puts_append[of C "kvs @ [(p0, v)]" q w]
    by (simp add: c'1 putValue_fresh[OF c'2 fq] c''_def)
  have c''2: "fifo_sync c''" unfolding c''_def by (rule fifo_put_fresh_sync[OF c'2 fq])
  have sz': "c_size c' = C" by (simp add: c'_def c(3))
  have "\<not> int (length (c_pos c')) < c_size c'" using posc' sz' lenrs by simp
  then have posc'': "c_pos c'' = tl (rs @ [p0]) @ [q]"
    using posc' by (simp add: c''_def fifo_put_fresh_def)
  have D: "cached_after C (kvs @ [(p0, v), (q, w)]) k = Some (k \<in> set (tl (rs @ [p0]) @ [q]))" for k
    using cached_after_sync[OF c''1 c''2] posc'' by simp
  have k0: "fst (kvs ! 0) = p0" and k1: "fst (kvs ! 1) = p1"
    by (simp_all add: kvs p0_def p1_def)
  have part1: "cached_after C kvs (fst (kvs ! 0)) = Some False"
    using dist by (simp add: A k0)
  have part2: "\<forall>i. 1 \<le> i \<and> i \<le> nat C \<longrightarrow> cached_after C kvs (fst (kvs ! i)) = Some True"
  proof (intro allI impI)
    fix i assume i: "1 \<le> i \<and> i \<le> nat C"
    then obtain j where j: "i = Suc j" by (cases i) auto
    have "j < length (kv1 # rest)" using i j lenrs by (simp add: rs_def)
    then have "fst ((kv1 # rest) ! j) \<in> set (map fst (kv1 # rest))"
      by (metis length_map nth_map nth_mem)
    then have "fst (kvs ! i) \<in> set (p1 # rs)"
      by (simp add: kvs j p1_def rs_def)
    then show "cached_after C kvs (fst (kvs ! i)) = Some True"
      by (simp only: A simp_thms)
  qed
  have "evicted_by_last C kvs (p0, v) p1"
    using dist by (simp add: evicted_by_last_def A B)
  then have part3: "evicted_by_last C kvs (fst (kvs ! 0), v) (fst (kvs ! 1))"
    by (simp only: k0 k1)
  have part4: "cached_after C (kvs @ [(fst (kvs ! 0), v)]) (fst (kvs ! 0)) = Some True"
    by (simp add: B k0)
  have ev: "evicted_by_last C (kvs @ [(p0, v)]) (q, w) k = (k = hd (rs @ [p0]))" for k
  proof (cases rs)
    case Nil
    then show ?thesis using qf by (auto simp add: evicted_by_last_def B D)
  next
    case (Cons r rs')
    then show ?thesis using qf dist by (auto simp add: evicted_by_last_def B D)
  qed
  have hd_eq: "hd (rs @ [p0]) = (if C = 1 then fst (kvs ! 0) else fst (kvs ! 2))"
  proof (cases rs)
    case Nil
    then have "C = 1" using lenrs by simp
    then show ?thesis using Nil k0 by simp
  next
    case (Cons r rs')
    then have "C \<noteq> 1" using lenrs by simp
    moreover have "fst (kvs ! 2) = r" using Cons by (cases rest) (auto simp: kvs rs_def)
    ultimately show ?thesis using Cons by simp
  qed
  show ?thesis
    using part1 part2 part3 part4 ev hd_eq by (simp add: k0)
qed

theorem FIFOCache_eviction_order_witness:
  "cached_after 2 [(0, 10::int), (1, 11), (2, 12)] 0 = Some False
   \<and> evicted_by_last 2 [(0, 10::int), (1, 11), (2, 12)] (0, 13) 1
   \<and> evicted_by_last 2 ([(0, 10::int), (1, 11), (2, 12)] @ [(0, 13)]) (3, 14) 2"
  using FIFOCache_eviction_order [of 2 "[(0, 10::int), (1, 11), (2, 12)]" 3 13 14]
  by simp

section \<open>Properties of TechnicalIndicatorBase\<close>

lemma isCached_stored: "isCached c p = (stored c p \<noteq> None)"
  by (cases c) (auto simp: FIFOCache_isCached_def)

lemma getValue_stored: "getValue c p d = (case stored c p of None \<Rightarrow> d | Some v \<Rightarrow> v)"
  by (cases c) (auto simp: FIFOCache_getValue_def)

lemma cache_ok_stored: "cache_ok c \<Longrightarrow> stored c p = Some v \<Longrightarrow> \<exists>x. v = Val x"
  by (cases c) auto

lemma fifo_put_fresh_lookup:
  assumes "fifo_sync c" "p \<notin> dom (c_cache c)"
  shows "c_cache (fifo_put_fresh c p v) p = Some v"
proof (cases "int (length (c_pos c)) < c_size c")
  case True
  then show ?thesis by (simp add: fifo_put_fresh_def)
next
  case False
  then have "c_pos c \<noteq> []" using assms(1) by (auto simp: fifo_sync_def)
  then have "hd (c_pos c) \<in> dom (c_cache c)" using assms(1) by (auto simp: fifo_sync_def)
  then have "hd (c_pos c) \<noteq> p" using assms(2) by auto
  then show ?thesis using False by (simp add: fifo_put_fresh_def)
qed

lemma fifo_put_fresh_others:
  "c_cache (fifo_put_fresh c p v) q = Some u \<Longrightarrow> q \<noteq> p \<Longrightarrow> c_cache c q = Some u"
  by (auto simp: fifo_put_fresh_def split: if_splits)

lemma putValue_cache_ok:
  assumes "cache_ok c" "\<not> isCached c p"
  shows "\<exists>c'. putValue c p (Val x) = Inr c' \<and> cache_ok c'
           \<and> (c' = NoCache) = (c = NoCache)
           \<and> (c \<noteq> NoCache \<longrightarrow> stored c' p = Some (Val x))"
proof (cases c)
  case NoCache
  then show ?thesis by simp
next
  case (FIFO f)
  have sync: "fifo_sync f" and fresh: "p \<notin> dom (c_cache f)"
    using assms FIFO by (auto simp: FIFOCache_isCached_def)
  have vals: "\<forall>q v. c_cache f q = Some v \<longrightarrow> (\<exists>x. v = Val x)" using assms FIFO by simp
  have "\<forall>q v. c_cache (fifo_put_fresh f p (Val x)) q = Some v \<longrightarrow> (\<exists>y. v = Val y)"
  proof (intro allI impI)
    fix q v assume a: "c_cache (fifo_put_fresh f p (Val x)) q = Some v"
    show "\<exists>y. v = Val y"
    proof (cases "q = p")
      case True
      then show ?thesis using a fifo_put_fresh_lookup[OF sync fresh, of "Val x"] by auto
    next
      case False
      then show ?thesis using fifo_put_fresh_others[OF a] vals by blast
    qed
  qed
  then show ?thesis
    using FIFO putValue_fresh[OF sync fresh] fifo_put_fresh_sync[OF sync fresh]
      fifo_put_fresh_lookup[OF sync fresh]
    by simp
qed

lemma getValueAbsolute_outside:
  "p < getFirstValidPos env \<or> p \<ge> getLength env \<Longrightarrow> getValueAbsolute env s p = Inr (PyNone, s)"
  by (simp add: getValueAbsolute_def)

lemma getValueAbsolute_hit:
  assumes "cache_ok (ti_cache s)" "getFirstValidPos env \<le> p" "p < getLength env"
    and "stored (ti_cache s) p = Some v"
  shows "getValueAbsolute env s p = Inr (v, s)"
proof -
  obtain x where "v = Val x" using cache_ok_stored[OF assms(1,4)] by blast
  then show ?thesis using assms by (simp add: getValueAbsolute_def getValue_stored)
qed

lemma getValueAbsolute_miss_None:
  assumes "getFirstValidPos env \<le> p" "p < getLength env" "0 \<le> p - ti_windowSize s + 1"
    and "stored (ti_cache s) p = None"
    and "calculateValue env (p - ti_windowSize s + 1) p = None"
  shows "getValueAbsolute env s p = Inr (PyNone, s\<lparr>ti_calcCalls := ti_calcCalls s + 1\<rparr>)"
  using assms by (simp add: getValueAbsolute_def getValue_stored Let_def)

lemma getValueAbsolute_miss_Some:
  assumes "cache_ok (ti_cache s)" "getFirstValidPos env \<le> p" "p < getLength env"
    and "0 \<le> p - ti_windowSize s + 1"
    and "stored (ti_cache s) p = None"
    and "calculateValue env (p - ti_windowSize s + 1) p = Some x"
  shows "\<exists>c'. getValueAbsolute env s p
                 = Inr (Val x, s\<lparr>ti_calcCalls := ti_calcCalls s + 1, ti_cache := c'\<rparr>)
           \<and> cache_ok c' \<and> (c' = NoCache) = (ti_cache s = NoCache)
           \<and> (ti_cache s \<noteq> NoCache \<longrightarrow> stored c' p = Some (Val x))"
proof -
  have nc: "\<not> isCached (ti_cache s) p" using assms(5) by (simp add: isCached_stored)
  from putValue_cache_ok[OF assms(1) nc, of x] obtain c' where
    c': "putValue (ti_cache s) p (Val x) = Inr c'" "cache_ok c'"
        "(c' = NoCache) = (ti_cache s = NoCache)"
        "ti_cache s \<noteq> NoCache \<longrightarrow> stored c' p = Some (Val x)"
    by blast
  have "getValueAbsolute env s p
          = Inr (Val x, s\<lparr>ti_calcCalls := ti_calcCalls s + 1, ti_cache := c'\<rparr>)"
    using assms c'(1) by (simp add: getValueAbsolute_def getValue_stored Let_def)
  then show ?thesis using c' by blast
qed

lemma getValueAbsolute_preserves:
  assumes "cache_ok (ti_cache s)" "getValueAbsolute env s p = Inr (r, s')"
  shows "cache_ok (ti_cache s') \<and> ti_windowSize s' = ti_windowSize s
           \<and> (ti_cache s' = NoCache) = (ti_cache s = NoCache)"
proof (cases "p < getFirstValidPos env \<or> p \<ge> getLength env")
  case True
  then show ?thesis using assms getValueAbsolute_outside[OF True, of s] by simp
next
  case False
  then have inb: "getFirstValidPos env \<le> p" "p < getLength env" by auto
  show ?thesis
  proof (cases "stored (ti_cache s) p")
    case (Some v)
    then show ?thesis using getValueAbsolute_hit[OF assms(1) inb Some] assms by simp
  next
    case None
    show ?thesis
    proof (cases "0 \<le> p - ti_windowSize s + 1")
      case False
      then show ?thesis using assms inb None
        by (simp add: getValueAbsolute_def getValue_stored Let_def)
    next
      case True
      show ?thesis
      proof (cases "calculateValue env (p - ti_windowSize s + 1) p")
        case cn: None
        show ?thesis using getValueAbsolute_miss_None[OF inb True None cn] assms by auto
      next
        case (Some x)
        show ?thesis using getValueAbsolute_miss_Some[OF assms(1) inb True None Some] assms
          by auto
      qed
    qed
  qed
qed

lemma getValueAbsolutes_preserves:
  assumes "cache_ok (ti_cache s)" "getValueAbsolutes s cs = Inr (rs, s')"
  shows "cache_ok (ti_cache s') \<and> ti_windowSize s' = ti_windowSize s
           \<and> (ti_cache s' = NoCache) = (ti_cache s = NoCache)"
  using assms
proof (induction cs arbitrary: s rs)
  case Nil
  then show ?case by simp
next
  case (Cons a cs)
  obtain env p where a: "a = (env, p)" by (cases a)
  from Cons.prems(2) obtain r s1 rs1 where
    st: "getValueAbsolute env s p = Inr (r, s1)" and rest: "getValueAbsolutes s1 cs = Inr (rs1, s')"
    by (auto simp: a split: sum.splits prod.splits)
  from getValueAbsolute_preserves[OF Cons.prems(1) st] Cons.IH[OF _ rest]
  show ?case by simp
qed

lemma init_cache_ok:
  assumes "TechnicalIndicatorBase_init ws cs = Inr s"
  shows "cache_ok (ti_cache s) \<and> ti_windowSize s = ws \<and> 0 < ws \<and> ti_calcCalls s = 0
           \<and> (ti_cache s = NoCache) = (cs \<le> 0)"
  using assms
  by (auto simp: TechnicalIndicatorBase_init_def FIFOCache_init_def fifo_sync_def
           split: if_splits)

lemma reachable_ok:
  assumes "TechnicalIndicatorBase_init ws cs = Inr sI" "getValueAbsolutes sI hist = Inr (outs, s)"
  shows "cache_ok (ti_cache s) \<and> ti_windowSize s = ws \<and> 0 < ws
           \<and> (ti_cache s = NoCache) = (cs \<le> 0)"
  using init_cache_ok[OF assms(1)] getValueAbsolutes_preserves[OF _ assms(2)] by simp

lemma DataSeriesFilter_firstPos:
  "0 \<le> d \<Longrightarrow> DataSeriesFilter_firstValidPos ws d \<le> p \<Longrightarrow> 0 \<le> p - ws + 1"
  by (simp add: DataSeriesFilter_firstValidPos_def)

lemma repeat_hit:
  assumes "cache_ok (ti_cache s)" "getFirstValidPos env \<le> p" "p < getLength env"
    and "stored (ti_cache s) p = Some v"
  shows "getValueAbsolutes s (replicate n (env, p)) = Inr (replicate n v, s)"
  by (induction n) (simp_all add: getValueAbsolute_hit[OF assms])

lemma repeat_miss_None:
  assumes "getFirstValidPos env \<le> p" "p < getLength env" "0 \<le> p - ti_windowSize s + 1"
    and "stored (ti_cache s) p = None"
    and "calculateValue env (p - ti_windowSize s + 1) p = None"
  shows "getValueAbsolutes s (replicate n (env, p))
           = Inr (replicate n PyNone, s\<lparr>ti_calcCalls := ti_calcCalls s + n\<rparr>)"
  using assms
proof (induction n arbitrary: s)
  case 0
  then show ?case by simp
next
  case (Suc n)
  let ?s1 = "s\<lparr>ti_calcCalls := ti_calcCalls s + 1\<rparr>"
  have st: "getValueAbsolute env s p = Inr (PyNone, ?s1)"
    by (rule getValueAbsolute_miss_None[OF Suc.prems])
  have "getValueAbsolutes ?s1 (replicate n (env, p))
          = Inr (replicate n PyNone, ?s1\<lparr>ti_calcCalls := ti_calcCalls ?s1 + n\<rparr>)"
    using Suc.prems by (intro Suc.IH) simp_all
  then show ?case using st by simp
qed

lemma repeat_NoCache:
  assumes "ti_cache s = NoCache"
    and "getFirstValidPos env \<le> p" "p < getLength env" "0 \<le> p - ti_windowSize s + 1"
  shows "getValueAbsolutes s (replicate n (env, p))
           = Inr (replicate n (pyval_of (calculateValue env (p - ti_windowSize s + 1) p)),
                  s\<lparr>ti_calcCalls := ti_calcCalls s + n\<rparr>)"
  using assms
proof (induction n arbitrary: s)
  case 0
  then show ?case by simp
next
  case (Suc n)
  let ?s1 = "s\<lparr>ti_calcCalls := ti_calcCalls s + 1\<rparr>"
  have st: "getValueAbsolute env s p
              = Inr (pyval_of (calculateValue env (p - ti_windowSize s + 1) p), ?s1)"
    using Suc.prems
    by (cases "calculateValue env (p - ti_windowSize s + 1) p")
       (simp_all add: getValueAbsolute_def Let_def)
  have "getValueAbsolutes ?s1 (replicate n (env, p))
          = Inr (replicate n (pyval_of (calculateValue env (p - ti_windowSize ?s1 + 1) p)),
                 ?s1\<lparr>ti_calcCalls := ti_calcCalls ?s1 + n\<rparr>)"
    using Suc.prems by (intro Suc.IH) simp_all
  then show ?case using st by simp
qed

text \<open>
  Claim C4: for every position below the first valid position or at or beyond the length,
  \<open>getValueAbsolute\<close> returns \<open>None\<close> and the indicator is as it was: the cache is not
  touched and \<open>calculateValue\<close> is not invoked (its counter is unchanged), whatever the
  window size and the cache.
\<close>

theorem getValueAbsolute_out_of_bounds:
  "p < getFirstValidPos env \<or> p \<ge> getLength env \<Longrightarrow>
     getValueAbsolute env s p = Inr (PyNone, s)"
  by (simp add: getValueAbsolute_def)

text \<open>
  Claim C3: in every state an indicator can reach from its constructor, at an in-bounds
  position (whose window starts at a non-negative position): while the position is cached,
  any number of calls at it return the cached value and leave the indicator, the counter
  of \<open>calculateValue\<close> included, as it was; with a FIFO cache (cache size above 0), a call
  at a position that is not cached and whose value is present invokes \<open>calculateValue\<close>
  once and caches the value, and the calls that follow return it without another
  invocation; with cache size 0 (or below: \<open>NoCache\<close>), \<open>n\<close> calls invoke
  \<open>calculateValue\<close> exactly \<open>n\<close> times.
\<close>

theorem getValueAbsolute_cache_soundness:
  assumes "TechnicalIndicatorBase_init ws cs = Inr sI"
    and "getValueAbsolutes sI hist = Inr (outs, s)"
    and "getFirstValidPos env \<le> p" and "p < getLength env" and "0 \<le> p - ws + 1"
  shows "(isCached (ti_cache s) p \<longrightarrow>
            getValueAbsolutes s (replicate n (env, p))
              = Inr (replicate n (getValue (ti_cache s) p ValueNotCached), s))
       \<and> (0 < cs \<and> \<not> isCached (ti_cache s) p \<and> calculateValue env (p - ws + 1) p = Some x \<longrightarrow>
            (\<exists>s1. getValueAbsolute env s p = Inr (Val x, s1)
                \<and> ti_calcCalls s1 = ti_calcCalls s + 1
                \<and> isCached (ti_cache s1) p
                \<and> getValueAbsolutes s1 (replicate n (env, p)) = Inr (replicate n (Val x), s1)))
       \<and> (cs \<le> 0 \<longrightarrow>
            (\<exists>s'. getValueAbsolutes s (replicate n (env, p))
                     = Inr (replicate n (pyval_of (calculateValue env (p - ws + 1) p)), s')
                \<and> ti_calcCalls s' = ti_calcCalls s + n))"
proof -
  have ok: "cache_ok (ti_cache s)" and ws: "ti_windowSize s = ws"
    and nc: "(ti_cache s = NoCache) = (cs \<le> 0)"
    using reachable_ok[OF assms(1,2)] by simp_all
  have fp: "0 \<le> p - ti_windowSize s + 1" using assms(5) ws by simp
  have part1: "getValueAbsolutes s (replicate n (env, p))
                 = Inr (replicate n (getValue (ti_cache s) p ValueNotCached), s)"
    if "isCached (ti_cache s) p"
  proof -
    from that obtain v where v: "stored (ti_cache s) p = Some v"
      by (auto simp: isCached_stored)
    show ?thesis using repeat_hit[OF ok assms(3,4) v] v by (simp add: getValue_stored)
  qed
  have part2: "\<exists>s1. getValueAbsolute env s p = Inr (Val x, s1)
                \<and> ti_calcCalls s1 = ti_calcCalls s + 1
                \<and> isCached (ti_cache s1) p
                \<and> getValueAbsolutes s1 (replicate n (env, p)) = Inr (replicate n (Val x), s1)"
    if "0 < cs" "\<not> isCached (ti_cache s) p" "calculateValue env (p - ws + 1) p = Some x"
  proof -
    have miss: "stored (ti_cache s) p = None" using that(2) by (simp add: isCached_stored)
    have calc: "calculateValue env (p - ti_windowSize s + 1) p = Some x" using that(3) ws by simp
    from getValueAbsolute_miss_Some[OF ok assms(3,4) fp miss calc] obtain c' where
      c': "getValueAbsolute env s p
             = Inr (Val x, s\<lparr>ti_calcCalls := ti_calcCalls s + 1, ti_cache := c'\<rparr>)"
          "cache_ok c'" "ti_cache s \<noteq> NoCache \<longrightarrow> stored c' p = Some (Val x)"
      by blast
    let ?s1 = "s\<lparr>ti_calcCalls := ti_calcCalls s + 1, ti_cache := c'\<rparr>"
    have st: "stored (ti_cache ?s1) p = Some (Val x)" using c'(3) nc that(1) by simp
    have ok1: "cache_ok (ti_cache ?s1)" using c'(2) by simp
    have "getValueAbsolutes ?s1 (replicate n (env, p)) = Inr (replicate n (Val x), ?s1)"
      by (rule repeat_hit[OF ok1 assms(3,4) st])
    moreover have "isCached (ti_cache ?s1) p" using st by (simp add: isCached_stored)
    ultimately show ?thesis using c'(1) by (intro exI[of _ ?s1]) simp
  qed
  have part3: "\<exists>s'. getValueAbsolutes s (replicate n (env, p))
                     = Inr (replicate n (pyval_of (calculateValue env (p - ws + 1) p)), s')
                \<and> ti_calcCalls s' = ti_calcCalls s + n"
    if "cs \<le> 0"
  proof -
    have "ti_cache s = NoCache" using nc that by simp
    from repeat_NoCache[OF this assms(3,4) fp, of n] show ?thesis by (simp add: ws)
  qed
  show ?thesis using part1 part2 part3 by blast
qed

text \<open>
  Claim C5: in every state an indicator can reach from its constructor, when
  \<open>calculateValue\<close> returns \<open>None\<close> for an in-bounds position (so the position is not
  cached, or the computation would not have run), \<open>getValueAbsolute\<close> returns \<open>None\<close>, the
  cache is unchanged and the position is still not cached, and each of \<open>n\<close> calls in a
  row invokes \<open>calculateValue\<close> again; and every value the cache holds is a computed
  value, never \<open>None\<close>.
\<close>

theorem getValueAbsolute_absent_not_cached:
  assumes "TechnicalIndicatorBase_init ws cs = Inr sI"
    and "getValueAbsolutes sI hist = Inr (outs, s)"
  shows "(getFirstValidPos env \<le> p \<and> p < getLength env \<and> 0 \<le> p - ws + 1
            \<and> \<not> isCached (ti_cache s) p \<and> calculateValue env (p - ws + 1) p = None \<longrightarrow>
            getValueAbsolute env s p = Inr (PyNone, s\<lparr>ti_calcCalls := ti_calcCalls s + 1\<rparr>)
            \<and> \<not> isCached (ti_cache (s\<lparr>ti_calcCalls := ti_calcCalls s + 1\<rparr>)) p
            \<and> getValueAbsolutes s (replicate n (env, p))
                = Inr (replicate n PyNone, s\<lparr>ti_calcCalls := ti_calcCalls s + n\<rparr>))
       \<and> (\<forall>q v. stored (ti_cache s) q = Some v \<longrightarrow> (\<exists>x. v = Val x))"
proof -
  have ok: "cache_ok (ti_cache s)" and ws: "ti_windowSize s = ws"
    using reachable_ok[OF assms(1,2)] by simp_all
  have part1: "getValueAbsolute env s p = Inr (PyNone, s\<lparr>ti_calcCalls := ti_calcCalls s + 1\<rparr>)
            \<and> \<not> isCached (ti_cache (s\<lparr>ti_calcCalls := ti_calcCalls s + 1\<rparr>)) p
            \<and> getValueAbsolutes s (replicate n (env, p))
                = Inr (replicate n PyNone, s\<lparr>ti_calcCalls := ti_calcCalls s + n\<rparr>)"
    if h: "getFirstValidPos env \<le> p \<and> p < getLength env \<and> 0 \<le> p - ws + 1
            \<and> \<not> isCached (ti_cache s) p \<and> calculateValue env (p - ws + 1) p = None"
  proof -
    have inb: "getFirstValidPos env \<le> p" "p < getLength env" using h by simp_all
    have fp: "0 \<le> p - ti_windowSize s + 1" using h ws by simp
    have miss: "stored (ti_cache s) p = None" using h by (simp add: isCached_stored)
    have calc: "calculateValue env (p - ti_windowSize s + 1) p = None" using h ws by simp
    show ?thesis
      using getValueAbsolute_miss_None[OF inb fp miss calc]
        repeat_miss_None[OF inb fp miss calc, of n] h
      by simp
  qed
  have part2: "\<forall>q v. stored (ti_cache s) q = Some v \<longrightarrow> (\<exists>x. v = Val x)"
    using cache_ok_stored[OF ok] by blast
  show ?thesis using part1 part2 by blast
qed

theorem getValueAbsolute_out_of_bounds_witness:
  "getValueAbsolute
     \<lparr>getFirstValidPos = 1, getLength = 5, calculateValue = (\<lambda>a b. Some (a + b))\<rparr>
     \<lparr>ti_windowSize = 2, ti_cache = NoCache, ti_calcCalls = 0\<rparr> 7
   = Inr (PyNone :: int pyval, \<lparr>ti_windowSize = 2, ti_cache = NoCache, ti_calcCalls = 0\<rparr>)"
  using getValueAbsolute_out_of_bounds
    [of 7 "\<lparr>getFirstValidPos = 1, getLength = 5, calculateValue = (\<lambda>a b. Some (a + b))\<rparr>"
        "\<lparr>ti_windowSize = 2, ti_cache = NoCache, ti_calcCalls = 0\<rparr>"]
  by simp

theorem getValueAbsolute_cache_soundness_witness:
  "(\<exists>s1. getValueAbsolute
           \<lparr>getFirstValidPos = 1, getLength = 5, calculateValue = (\<lambda>a b. Some (a + b))\<rparr>
           \<lparr>ti_windowSize = 2,
             ti_cache = FIFO \<lparr>c_size = 1, c_cache = Map.empty, c_pos = []\<rparr>,
             ti_calcCalls = 0\<rparr> 3 = Inr (Val 5, s1)
         \<and> ti_calcCalls s1 = 1
         \<and> isCached (ti_cache s1) 3
         \<and> getValueAbsolutes s1
             (replicate 2
                (\<lparr>getFirstValidPos = 1, getLength = 5, calculateValue = (\<lambda>a b. Some (a + b))\<rparr>, 3))
             = Inr (replicate 2 (Val 5), s1))
   \<and> getValueAbsolutes
        \<lparr>ti_windowSize = 2,
          ti_cache = FIFO \<lparr>c_size = 1, c_cache = [3 \<mapsto> Val 5], c_pos = [3]\<rparr>,
          ti_calcCalls = 1\<rparr>
        (replicate 2
           (\<lparr>getFirstValidPos = 1, getLength = 5, calculateValue = (\<lambda>a b. Some (a + b))\<rparr>, 3))
       = Inr (replicate 2 (Val 5),
              \<lparr>ti_windowSize = 2,
                ti_cache = FIFO \<lparr>c_size = 1, c_cache = [3 \<mapsto> Val 5], c_pos = [3]\<rparr>,
                ti_calcCalls = 1\<rparr>)
   \<and> (\<exists>s'. getValueAbsolutes
              \<lparr>ti_windowSize = 2, ti_cache = NoCache, ti_calcCalls = 0\<rparr>
              (replicate 2
                 (\<lparr>getFirstValidPos = 1, getLength = 5, calculateValue = (\<lambda>a b. Some (a + b))\<rparr>, 3))
             = Inr (replicate 2 (Val 5), s')
         \<and> ti_calcCalls s' = 2)"
proof -
  let ?env = "\<lparr>getFirstValidPos = 1, getLength = 5, calculateValue = (\<lambda>a b. Some (a + b))\<rparr>
                :: int series_env"
  let ?sI = "\<lparr>ti_windowSize = 2,
               ti_cache = FIFO \<lparr>c_size = 1, c_cache = Map.empty, c_pos = []\<rparr>,
               ti_calcCalls = 0\<rparr> :: int TechnicalIndicatorBase"
  let ?sH = "\<lparr>ti_windowSize = 2,
               ti_cache = FIFO \<lparr>c_size = 1, c_cache = [3 \<mapsto> Val 5], c_pos = [3]\<rparr>,
               ti_calcCalls = 1\<rparr> :: int TechnicalIndicatorBase"
  let ?sN = "\<lparr>ti_windowSize = 2, ti_cache = NoCache, ti_calcCalls = 0\<rparr>
               :: int TechnicalIndicatorBase"
  have i1: "TechnicalIndicatorBase_init 2 1 = Inr ?sI"
    by (simp add: TechnicalIndicatorBase_init_def FIFOCache_init_def)
  have i0: "TechnicalIndicatorBase_init 2 0 = Inr ?sN"
    by (simp add: TechnicalIndicatorBase_init_def)
  have h0: "getValueAbsolutes ?sI [] = Inr ([], ?sI)" "getValueAbsolutes ?sN [] = Inr ([], ?sN)"
    by simp_all
  have h1: "getValueAbsolutes ?sI [(?env, 3)] = Inr ([Val 5], ?sH)"
    by (simp add: getValueAbsolute_def FIFOCache_getValue_def FIFOCache_putValue_def Let_def)
  have b: "getFirstValidPos ?env \<le> 3" "3 < getLength ?env" "(0::int) \<le> 3 - 2 + 1" by simp_all
  have a: "\<exists>s1. getValueAbsolute ?env ?sI 3 = Inr (Val 5, s1)
         \<and> ti_calcCalls s1 = ti_calcCalls ?sI + 1
         \<and> isCached (ti_cache s1) 3
         \<and> getValueAbsolutes s1 (replicate 2 (?env, 3)) = Inr (replicate 2 (Val 5), s1)"
    using getValueAbsolute_cache_soundness [OF i1 h0(1) b, where n = 2 and x = 5]
    by (simp add: FIFOCache_isCached_def)
  have c: "getValueAbsolutes ?sH (replicate 2 (?env, 3))
             = Inr (replicate 2 (getValue (ti_cache ?sH) 3 ValueNotCached), ?sH)"
    using getValueAbsolute_cache_soundness [OF i1 h1 b, where n = 2 and x = 5]
    by (simp add: FIFOCache_isCached_def)
  have d: "\<exists>s'. getValueAbsolutes ?sN (replicate 2 (?env, 3))
                     = Inr (replicate 2 (pyval_of (calculateValue ?env (3 - 2 + 1) 3)), s')
                \<and> ti_calcCalls s' = ti_calcCalls ?sN + 2"
    using getValueAbsolute_cache_soundness [OF i0 h0(2) b, where n = 2 and x = 5]
    by simp
  from a have a': "\<exists>s1. getValueAbsolute ?env ?sI 3 = Inr (Val 5, s1)
         \<and> ti_calcCalls s1 = 1
         \<and> isCached (ti_cache s1) 3
         \<and> getValueAbsolutes s1 (replicate 2 (?env, 3)) = Inr (replicate 2 (Val 5), s1)"
    by simp
  from c have c': "getValueAbsolutes ?sH (replicate 2 (?env, 3)) = Inr (replicate 2 (Val 5), ?sH)"
    by (simp add: FIFOCache_getValue_def)
  have e1: "pyval_of (calculateValue ?env (3 - 2 + 1) 3) = Val 5"
    and e2: "ti_calcCalls ?sN + 2 = 2"
    by simp_all
  from d have d': "\<exists>s'. getValueAbsolutes ?sN (replicate 2 (?env, 3)) = Inr (replicate 2 (Val 5), s')
                \<and> ti_calcCalls s' = 2"
    unfolding e1 e2 .
  show ?thesis using a' c' d' by blast
qed

theorem getValueAbsolute_absent_not_cached_witness:
  "getValueAbsolutes
     \<lparr>ti_windowSize = 2,
       ti_cache = FIFO \<lparr>c_size = 1, c_cache = Map.empty, c_pos = []\<rparr>,
       ti_calcCalls = 0\<rparr>
     (replicate 3
        (\<lparr>getFirstValidPos = 1, getLength = 5, calculateValue = (\<lambda>a b. None)\<rparr>, 3))
   = Inr (replicate 3 (PyNone :: int pyval),
          \<lparr>ti_windowSize = 2,
            ti_cache = FIFO \<lparr>c_size = 1, c_cache = Map.empty, c_pos = []\<rparr>,
            ti_calcCalls = 3\<rparr>)
   \<and> stored (FIFO \<lparr>c_size = 1, c_cache = [3 \<mapsto> Val (5::int)], c_pos = [3]\<rparr>) 3 = Some (Val 5)
   \<and> (\<exists>x. Val (5::int) = Val x)"
proof -
  let ?env = "\<lparr>getFirstValidPos = 1, getLength = 5, calculateValue = (\<lambda>a b. Some (a + b))\<rparr>
                :: int series_env"
  let ?envN = "\<lparr>getFirstValidPos = 1, getLength = 5, calculateValue = (\<lambda>a b. None)\<rparr>
                :: int series_env"
  let ?sI = "\<lparr>ti_windowSize = 2,
               ti_cache = FIFO \<lparr>c_size = 1, c_cache = Map.empty, c_pos = []\<rparr>,
               ti_calcCalls = 0\<rparr> :: int TechnicalIndicatorBase"
  let ?sH = "\<lparr>ti_windowSize = 2,
               ti_cache = FIFO \<lparr>c_size = 1, c_cache = [3 \<mapsto> Val 5], c_pos = [3]\<rparr>,
               ti_calcCalls = 1\<rparr> :: int TechnicalIndicatorBase"
  have i1: "TechnicalIndicatorBase_init 2 1 = Inr ?sI"
    by (simp add: TechnicalIndicatorBase_init_def FIFOCache_init_def)
  have h0: "getValueAbsolutes ?sI [] = Inr ([], ?sI)" by simp
  have h1: "getValueAbsolutes ?sI [(?env, 3)] = Inr ([Val 5], ?sH)"
    by (simp add: getValueAbsolute_def FIFOCache_getValue_def FIFOCache_putValue_def Let_def)
  have a: "getValueAbsolutes ?sI (replicate 3 (?envN, 3))
             = Inr (replicate 3 PyNone, ?sI\<lparr>ti_calcCalls := ti_calcCalls ?sI + 3\<rparr>)"
    using getValueAbsolute_absent_not_cached [OF i1 h0, where env = ?envN and p = 3 and n = 3]
    by (simp add: FIFOCache_isCached_def)
  have st: "stored (ti_cache ?sH) 3 = Some (Val 5)" by simp
  have b: "\<exists>x. Val (5::int) = Val x"
    using getValueAbsolute_absent_not_cached [OF i1 h1, where env = ?envN and p = 3 and n = 3] st
    by blast
  show ?thesis using a b by simp
qed

section \<open>Properties of the event windows\<close>

lemma present_append: "present (xs @ ys) = present xs @ present ys"
  by (induction xs rule: present.induct) simp_all

lemma present_map_Some [simp]: "present (map Some xs) = xs"
  by (induction xs) simp_all

lemma map_Some_present: "None \<notin> set vs \<Longrightarrow> map Some (present vs) = vs"
  by (induction vs rule: present.induct) simp_all

lemma length_present: "None \<notin> set vs \<Longrightarrow> length (present vs) = length vs"
  by (induction vs rule: present.induct) simp_all

lemma length_last_n: "length (last_n n xs) = min n (length xs)"
  by (simp add: last_n_def)

lemma last_n_short: "length xs \<le> n \<Longrightarrow> last_n n xs = xs"
  by (simp add: last_n_def)

lemma last_n_append: "last_n n (last_n n xs @ ys) = last_n n (xs @ ys)"
proof (cases "length xs \<le> n")
  case True
  then show ?thesis by (simp add: last_n_short)
next
  case False
  then show ?thesis by (simp add: last_n_def add.commute)
qed

lemma deque_append_last_n:
  assumes "0 < N" "int (length xs) \<le> N"
  shows "deque_append N xs x = last_n (nat N) (xs @ [x])"
proof (cases "int (length xs) < N")
  case True
  then show ?thesis by (simp add: deque_append_def last_n_def Let_def)
next
  case False
  then have len: "length xs = nat N" using assms by linarith
  then have "xs \<noteq> []" using assms by auto
  then show ?thesis using len assms
    by (cases xs) (simp_all add: deque_append_def last_n_def Let_def)
qed

lemma ew_inv_length: "ew_inv w \<Longrightarrow> length (ew_values w) \<le> nat (ew_windowSize w)"
  unfolding ew_inv_def by linarith

lemma onNewValue_None [simp]: "EventWindow_onNewValue w None = w"
  by (simp add: EventWindow_onNewValue_def)

lemma onNewValue_Some:
  assumes "ew_inv w"
  shows "ew_values (EventWindow_onNewValue w (Some x))
           = last_n (nat (ew_windowSize w)) (ew_values w @ [Some x])"
    and "ew_windowSize (EventWindow_onNewValue w (Some x)) = ew_windowSize w"
  using assms by (simp_all add: EventWindow_onNewValue_def ew_inv_def deque_append_last_n)

lemma set_last_n: "set (last_n n xs) \<subseteq> set xs"
  by (simp add: last_n_def set_drop_subset)

lemma onNewValue_inv:
  assumes "ew_inv w"
  shows "ew_inv (EventWindow_onNewValue w v)"
proof (cases v)
  case None
  then show ?thesis using assms by simp
next
  case (Some x)
  have "None \<notin> set (last_n (nat (ew_windowSize w)) (ew_values w @ [Some x]))"
    using set_last_n[of "nat (ew_windowSize w)" "ew_values w @ [Some x]"] assms
    by (auto simp: ew_inv_def)
  moreover have "int (min (nat (ew_windowSize w)) (Suc (length (ew_values w)))) \<le> ew_windowSize w"
    using assms unfolding ew_inv_def by linarith
  ultimately show ?thesis
    using assms onNewValue_Some[OF assms, of x] Some
    by (simp add: ew_inv_def length_last_n)
qed

lemma onNewValue_values:
  assumes "ew_inv w"
  shows "ew_values (EventWindow_onNewValue w v)
           = last_n (nat (ew_windowSize w)) (ew_values w @ map Some (present [v]))"
proof (cases v)
  case None
  then show ?thesis using ew_inv_length[OF assms] by (simp add: last_n_short)
next
  case (Some x)
  then show ?thesis using onNewValue_Some(1)[OF assms] by simp
qed

lemma onNewValue_windowSize [simp]:
  "ew_windowSize (EventWindow_onNewValue w v) = ew_windowSize w"
  by (simp add: EventWindow_onNewValue_def)

lemma run_values:
  assumes "ew_inv w"
  shows "ew_inv (EventWindow_run w vs)
       \<and> ew_windowSize (EventWindow_run w vs) = ew_windowSize w
       \<and> ew_values (EventWindow_run w vs)
           = last_n (nat (ew_windowSize w)) (ew_values w @ map Some (present vs))"
  using assms
proof (induction vs arbitrary: w)
  case Nil
  then show ?case using ew_inv_length[of w] by (simp add: last_n_short)
next
  case (Cons v vs)
  let ?w1 = "EventWindow_onNewValue w v"
  have inv1: "ew_inv ?w1" by (rule onNewValue_inv[OF Cons.prems])
  have "ew_values (EventWindow_run ?w1 vs)
          = last_n (nat (ew_windowSize w))
              (last_n (nat (ew_windowSize w)) (ew_values w @ map Some (present [v]))
                 @ map Some (present vs))"
    using Cons.IH[OF inv1] onNewValue_values[OF Cons.prems, of v] by simp
  also have "\<dots> = last_n (nat (ew_windowSize w)) (ew_values w @ map Some (present (v # vs)))"
    unfolding last_n_append using present_append[of "[v]" vs] by simp
  finally show ?case using Cons.IH[OF inv1] by simp
qed

lemma py_index_nth:
  "0 \<le> i \<Longrightarrow> i < int (length xs) \<Longrightarrow> py_index xs i = Inr (xs ! nat i)"
  by (simp add: py_index_def)

lemma calculate_sma_loop_sum:
  assumes "0 \<le> i" "e \<le> int (length xs)"
  shows "calculate_sma_loop (map Some xs) i e acc
           = Inr (Some (acc + sum_list (take (nat (e - i)) (drop (nat i) xs))))"
  using assms
proof (induction "nat (e - i)" arbitrary: i acc)
  case 0
  then have "\<not> i < e" by simp
  then show ?case using 0 by (subst calculate_sma_loop_rounded.simps) simp
next
  case (Suc n)
  then have lt: "i < e" by linarith
  have idx: "py_index (map Some xs) i = Inr (Some (xs ! nat i))"
    using Suc.prems lt by (simp add: py_index_nth)
  have n: "n = nat (e - (i + 1))" using Suc.hyps(2) by linarith
  have ih: "calculate_sma_loop (map Some xs) (i + 1) e (acc + xs ! nat i)
          = Inr (Some (acc + xs ! nat i + sum_list (take (nat (e - (i + 1))) (drop (nat (i + 1)) xs))))"
    using Suc.hyps(1)[OF n] Suc.prems by simp
  have k: "nat i < length xs" using Suc.prems lt by linarith
  have "take (nat (e - i)) (drop (nat i) xs)
          = xs ! nat i # take (nat (e - (i + 1))) (drop (nat (i + 1)) xs)"
  proof -
    have "nat (e - i) = Suc (nat (e - (i + 1)))" using lt by linarith
    moreover have "drop (nat i) xs = xs ! nat i # drop (nat (i + 1)) xs"
      using k Suc.prems(1) by (simp add: Cons_nth_drop_Suc nat_add_distrib)
    ultimately show ?thesis by simp
  qed
  then show ?case using lt idx ih
    by (subst calculate_sma_loop_rounded.simps) (simp add: add.assoc)
qed

lemma calculate_sma_window:
  assumes "0 \<le> b" "b < e" "e \<le> int (length xs)"
  shows "calculate_sma (map Some xs) b e
           = Inr (Some (sum_list (take (nat (e - b)) (drop (nat b) xs)) / of_int (e - b)))"
  using assms calculate_sma_loop_sum[of b e xs 0]
  by (simp add: calculate_sma_unfold)

lemma calculate_sma_buffer:
  assumes "None \<notin> set vs" "vs \<noteq> []"
  shows "calculate_sma vs 0 (int (length vs))
           = Inr (Some (sum_list (present vs) / of_int (int (length vs))))"
proof -
  have "calculate_sma (map Some (present vs)) 0 (int (length (present vs)))
          = Inr (Some (sum_list (take (nat (int (length (present vs)) - 0)) (drop (nat 0) (present vs)))
                         / of_int (int (length (present vs)) - 0)))"
    using assms by (intro calculate_sma_window) (simp_all add: length_present)
  then show ?thesis using assms by (simp add: map_Some_present length_present)
qed

lemma sma_value_onNewValue [simp]:
  "sma_value (EventWindow_onNewValue w v) = sma_value w"
  by (simp add: EventWindow_onNewValue_def)

lemma present_hd_tl:
  "None \<notin> set vs \<Longrightarrow> vs \<noteq> [] \<Longrightarrow> \<exists>f. hd vs = Some f \<and> present vs = f # present (tl vs)"
proof -
  assume a: "None \<notin> set vs" "vs \<noteq> []"
  then obtain v t where vt: "vs = v # t" by (cases vs) auto
  then obtain f where "v = Some f" using a by (cases v) auto
  then show ?thesis using vt by simp
qed

lemma ew_inv_Cons: "ew_inv w \<Longrightarrow> ew_values w = f # t \<Longrightarrow> \<exists>y. f = Some y"
  by (cases f) (auto simp: ew_inv_def)

lemma sma_onNewValue_None:
  assumes "ew_inv w"
  shows "SMAEventWindow_onNewValue w None = Inr w"
proof (cases "ew_values w")
  case Nil
  then show ?thesis by (simp add: SMAEventWindow_onNewValue_unfold)
next
  case (Cons f t)
  then obtain y where "f = Some y" using ew_inv_Cons[OF assms(1)] by blast
  then show ?thesis using Cons by (auto simp add: SMAEventWindow_onNewValue_unfold py_index_def)
qed

lemma sma_onNewValue_filling:
  assumes "ew_inv w" "sma_value w = None" "int (length (ew_values w)) + 1 < ew_windowSize w"
  shows "SMAEventWindow_onNewValue w (Some x) = Inr (EventWindow_onNewValue w (Some x))"
proof -
  let ?w1 = "EventWindow_onNewValue w (Some x)"
  have len: "length (ew_values ?w1) = Suc (length (ew_values w))"
    using assms onNewValue_Some(1)[OF assms(1), of x] by (simp add: length_last_n)
  have ng: "int (length (ew_values ?w1)) \<noteq> ew_windowSize ?w1"
    using len assms(3) by simp
  show ?thesis
  proof (cases "ew_values w")
    case Nil
    then show ?thesis using ng by (simp add: SMAEventWindow_onNewValue_unfold Let_def)
  next
    case (Cons f t)
    then obtain y where "f = Some y" using ew_inv_Cons[OF assms(1)] by blast
    then show ?thesis using Cons ng
      by (auto simp add: SMAEventWindow_onNewValue_unfold py_index_def Let_def)
  qed
qed

lemma sma_onNewValue_seed:
  assumes "ew_inv w" "sma_value w = None" "int (length (ew_values w)) + 1 = ew_windowSize w"
  shows "SMAEventWindow_onNewValue w (Some x)
           = Inr ((EventWindow_onNewValue w (Some x))
                   \<lparr>sma_value := Some (sum_list (present (ew_values w @ [Some x]))
                                         / of_int (ew_windowSize w))\<rparr>)"
    and "ew_values (EventWindow_onNewValue w (Some x)) = ew_values w @ [Some x]"
proof -
  let ?w1 = "EventWindow_onNewValue w (Some x)"
  have "length (ew_values w @ [Some x]) \<le> nat (ew_windowSize w)" using assms(3) by simp
  then show vals: "ew_values ?w1 = ew_values w @ [Some x]"
    using onNewValue_Some(1)[OF assms(1), of x] by (simp add: last_n_short)
  have len: "int (length (ew_values ?w1)) = ew_windowSize ?w1"
    using vals assms(3) by simp
  have nn: "None \<notin> set (ew_values w @ [Some x])" using assms(1) by (simp add: ew_inv_def)
  have "calculate_sma (ew_values w @ [Some x]) 0 (int (length (ew_values w @ [Some x])))
          = Inr (Some (sum_list (present (ew_values w @ [Some x]))
                         / of_int (int (length (ew_values w @ [Some x])))))"
    by (rule calculate_sma_buffer[OF nn]) simp
  then have calc: "calculate_sma (ew_values ?w1) 0 (ew_windowSize ?w1)
          = Inr (Some (sum_list (present (ew_values w @ [Some x])) / of_int (ew_windowSize w)))"
    using vals assms(3) by (simp add: add.commute)
  show "SMAEventWindow_onNewValue w (Some x)
           = Inr (?w1\<lparr>sma_value := Some (sum_list (present (ew_values w @ [Some x]))
                                         / of_int (ew_windowSize w))\<rparr>)"
  proof (cases "ew_values w")
    case Nil
    then show ?thesis using len calc assms(2)
      by (simp add: SMAEventWindow_onNewValue_unfold Let_def)
  next
    case (Cons f t)
    then obtain y where "f = Some y" using ew_inv_Cons[OF assms(1)] by blast
    then show ?thesis using Cons len calc assms(2)
      by (auto simp add: SMAEventWindow_onNewValue_unfold py_index_def Let_def)
  qed
qed

lemma sma_onNewValue_slide:
  assumes "ew_inv w" "sma_value w = Some a" "int (length (ew_values w)) = ew_windowSize w"
  shows "\<exists>f. hd (ew_values w) = Some f
           \<and> SMAEventWindow_onNewValue w (Some x)
               = Inr ((EventWindow_onNewValue w (Some x))
                       \<lparr>sma_value := Some (a + x / of_int (ew_windowSize w)
                                               - f / of_int (ew_windowSize w))\<rparr>)
           \<and> ew_values (EventWindow_onNewValue w (Some x)) = tl (ew_values w) @ [Some x]"
proof -
  let ?w1 = "EventWindow_onNewValue w (Some x)"
  have pos: "0 < ew_windowSize w" and nn: "None \<notin> set (ew_values w)"
    using assms(1) by (simp_all add: ew_inv_def)
  then obtain f0 t where ft: "ew_values w = f0 # t" using assms(3) by (cases "ew_values w") auto
  then obtain f where f: "f0 = Some f" using nn by (cases f0) auto
  have lenN: "length (ew_values w) = nat (ew_windowSize w)" using assms(3) by linarith
  have vals: "ew_values ?w1 = tl (ew_values w) @ [Some x]"
    using onNewValue_Some(1)[OF assms(1), of x] lenN ft by (simp add: last_n_def)
  have len: "int (length (ew_values ?w1)) = ew_windowSize ?w1"
    using vals assms(3) ft by simp
  have "SMAEventWindow_onNewValue w (Some x)
          = Inr (?w1\<lparr>sma_value := Some (a + x / of_int (ew_windowSize w)
                                           - f / of_int (ew_windowSize w))\<rparr>)"
    using ft f len assms(2) pos
    by (simp add: SMAEventWindow_onNewValue_unfold py_index_def Let_def)
  then show ?thesis using ft f vals by simp
qed

lemma sma_step:
  assumes "sma_inv w"
  shows "\<exists>w'. SMAEventWindow_onNewValue w v = Inr w' \<and> sma_inv w'
           \<and> ew_values w' = ew_values (EventWindow_onNewValue w v)
           \<and> ew_windowSize w' = ew_windowSize w"
proof (cases v)
  case None
  then show ?thesis using assms sma_onNewValue_None[of w] by (simp add: sma_inv_def)
next
  case (Some x)
  have inv: "ew_inv w" using assms by (simp add: sma_inv_def)
  let ?w1 = "EventWindow_onNewValue w (Some x)"
  let ?N = "ew_windowSize w"
  have inv1: "ew_inv ?w1" by (rule onNewValue_inv[OF inv])
  consider (filling) "int (length (ew_values w)) + 1 < ?N"
    | (seed) "int (length (ew_values w)) + 1 = ?N"
    | (slide) "int (length (ew_values w)) = ?N"
    using inv unfolding ew_inv_def by linarith
  then show ?thesis
  proof cases
    case filling
    then have sv: "sma_value w = None" using assms by (simp add: sma_inv_def)
    have len: "length (ew_values ?w1) = Suc (length (ew_values w))"
      using filling onNewValue_Some(1)[OF inv, of x] by (simp add: length_last_n)
    have "sma_inv ?w1" using inv1 sv len filling by (simp add: sma_inv_def)
    then show ?thesis using sma_onNewValue_filling[OF inv sv filling, of x] Some by simp
  next
    case seed
    then have sv: "sma_value w = None" using assms by (simp add: sma_inv_def)
    let ?w' = "?w1\<lparr>sma_value := Some (sum_list (present (ew_values w @ [Some x])) / of_int ?N)\<rparr>"
    have vals: "ew_values ?w1 = ew_values w @ [Some x]"
      by (rule sma_onNewValue_seed(2)[OF inv sv seed])
    have "ew_inv ?w'" using inv1 by (simp add: ew_inv_def)
    then have "sma_inv ?w'" using vals seed by (simp add: sma_inv_def)
    then show ?thesis using sma_onNewValue_seed(1)[OF inv sv seed, of x] Some by simp
  next
    case slide
    then have sv: "sma_value w = Some (sum_list (present (ew_values w)) / of_int ?N)"
      using assms by (simp add: sma_inv_def)
    from sma_onNewValue_slide[OF inv sv slide, of x] obtain f where
      f: "hd (ew_values w) = Some f"
         "SMAEventWindow_onNewValue w (Some x)
            = Inr (?w1\<lparr>sma_value := Some (sum_list (present (ew_values w)) / of_int ?N
                                             + x / of_int ?N - f / of_int ?N)\<rparr>)"
         "ew_values ?w1 = tl (ew_values w) @ [Some x]"
      by blast
    let ?w' = "?w1\<lparr>sma_value := Some (sum_list (present (ew_values w)) / of_int ?N
                                             + x / of_int ?N - f / of_int ?N)\<rparr>"
    have ne: "ew_values w \<noteq> []" using slide inv by (auto simp: ew_inv_def)
    have nn: "None \<notin> set (ew_values w)" using inv by (simp add: ew_inv_def)
    from present_hd_tl[OF nn ne] f(1) have pv: "present (ew_values w) = f # present (tl (ew_values w))"
      by auto
    have sum: "sum_list (present (ew_values w)) / of_int ?N + x / of_int ?N - f / of_int ?N
                = sum_list (present (tl (ew_values w) @ [Some x])) / of_int ?N"
      by (simp add: pv present_append add_divide_distrib)
    have len: "int (length (ew_values ?w1)) = ?N" using f(3) slide ne by simp
    have "ew_inv ?w'" using inv1 by (simp add: ew_inv_def)
    then have "sma_inv ?w'" using len f(3) sum by (simp add: sma_inv_def)
    then show ?thesis using f(2) Some by simp
  qed
qed

lemma sma_run:
  assumes "sma_inv w"
  shows "\<exists>w'. SMAEventWindow_run w vs = Inr w' \<and> sma_inv w'
           \<and> ew_values w' = ew_values (EventWindow_run w vs)
           \<and> ew_windowSize w' = ew_windowSize w"
  using assms
proof (induction vs arbitrary: w)
  case Nil
  then show ?case by simp
next
  case (Cons v vs)
  from sma_step[OF Cons.prems, where v = v] obtain w1 where
    w1: "SMAEventWindow_onNewValue w v = Inr w1" "sma_inv w1"
        "ew_values w1 = ew_values (EventWindow_onNewValue w v)"
        "ew_windowSize w1 = ew_windowSize w"
    by blast
  from Cons.IH[OF w1(2)] obtain w' where
    w': "SMAEventWindow_run w1 vs = Inr w'" "sma_inv w'"
        "ew_values w' = ew_values (EventWindow_run w1 vs)" "ew_windowSize w' = ew_windowSize w1"
    by blast
  have inv: "ew_inv w" "ew_inv w1" using Cons.prems w1(2) by (simp_all add: sma_inv_def)
  have "ew_values (EventWindow_run w1 vs) = ew_values (EventWindow_run (EventWindow_onNewValue w v) vs)"
    using run_values[OF inv(2), where vs = vs] run_values[OF onNewValue_inv[OF inv(1), where v = v], where vs = vs] w1(3,4)
    by simp
  then show ?case using w1 w' by simp
qed

lemma sma_init_inv:
  assumes "SMAEventWindow_init N = Inr w"
  shows "0 < N \<and> sma_inv w \<and> ew_values w = [] \<and> ew_windowSize w = N"
  using assms
  by (auto simp: SMAEventWindow_init_def EventWindow_init_def sma_inv_def ew_inv_def
           split: if_splits)

lemma sma_reachable:
  assumes "SMAEventWindow_init N = Inr w0"
  shows "\<exists>w. SMAEventWindow_run w0 vs = Inr w \<and> sma_inv w \<and> ew_windowSize w = N
           \<and> ew_values w = map Some (last_n (nat N) (present vs))"
proof -
  have i: "0 < N" "sma_inv w0" "ew_values w0 = []" "ew_windowSize w0 = N"
    using sma_init_inv[OF assms] by simp_all
  have inv: "ew_inv w0" using i(2) by (simp add: sma_inv_def)
  from sma_run[OF i(2), where vs = vs] obtain w where
    w: "SMAEventWindow_run w0 vs = Inr w" "sma_inv w"
       "ew_values w = ew_values (EventWindow_run w0 vs)" "ew_windowSize w = ew_windowSize w0"
    by blast
  have "ew_values w = last_n (nat N) (map Some (present vs))"
    using run_values[OF inv, where vs = vs] w(3) i by simp
  then have "ew_values w = map Some (last_n (nat N) (present vs))"
    by (simp add: last_n_def drop_map)
  then show ?thesis using w i by simp
qed

lemma outputs_nth:
  assumes "EventBasedFilter_onNewValues onNew getV w vs = Inr outs"
  shows "length outs = length vs
       \<and> (\<forall>i<length vs. \<exists>w'. feed onNew w (take (Suc i) vs) = Inr w' \<and> getV w' = Inr (outs ! i))"
  using assms
proof (induction vs arbitrary: w outs)
  case Nil
  then show ?case by simp
next
  case (Cons v vs)
  from Cons.prems obtain w1 r rest where
    st: "onNew w v = Inr w1" "getV w1 = Inr r"
        "EventBasedFilter_onNewValues onNew getV w1 vs = Inr rest" "outs = r # rest"
    by (auto split: sum.splits)
  from Cons.IH[OF st(3)] have ih: "length rest = length vs"
    "\<forall>i<length vs. \<exists>w'. feed onNew w1 (take (Suc i) vs) = Inr w' \<and> getV w' = Inr (rest ! i)"
    by simp_all
  have "\<exists>w'. feed onNew w (take (Suc i) (v # vs)) = Inr w' \<and> getV w' = Inr (outs ! i)"
    if "i < length (v # vs)" for i
  proof (cases i)
    case 0
    then show ?thesis using st by simp
  next
    case (Suc j)
    then have "j < length vs" using that by simp
    then show ?thesis using ih(2) st Suc by simp
  qed
  then show ?case using ih(1) st(4) by simp
qed

lemma outputs_total:
  assumes "P w"
    and "\<And>w v. P w \<Longrightarrow> \<exists>w'. onNew w v = Inr w' \<and> P w'"
    and "\<And>w. P w \<Longrightarrow> \<exists>r. getV w = Inr r"
  shows "\<exists>outs. EventBasedFilter_onNewValues onNew getV w vs = Inr outs"
  using assms(1)
proof (induction vs arbitrary: w)
  case Nil
  then show ?case by simp
next
  case (Cons v vs)
  from assms(2)[OF Cons.prems] obtain w1 where w1: "onNew w v = Inr w1" "P w1" by blast
  from assms(3)[OF w1(2)] obtain r where r: "getV w1 = Inr r" by blast
  from Cons.IH[OF w1(2)] obtain rest where
    "EventBasedFilter_onNewValues onNew getV w1 vs = Inr rest" by blast
  then show ?case using w1 r by simp
qed

lemma sma_prefix_value:
  assumes "SMAEventWindow_init N = Inr w0"
  shows "\<exists>w. SMAEventWindow_run w0 vs = Inr w \<and> sma_inv w
           \<and> ew_windowSize w = N
           \<and> ew_values w = map Some (last_n (nat N) (present vs))
           \<and> sma_value w = (if nat N \<le> length (present vs)
                            then Some (sum_list (last_n (nat N) (present vs)) / of_int N)
                            else None)"
proof -
  from sma_reachable[OF assms, where vs = vs] obtain w where
    w: "SMAEventWindow_run w0 vs = Inr w" "sma_inv w" "ew_windowSize w = N"
       "ew_values w = map Some (last_n (nat N) (present vs))"
    by blast
  have pos: "0 < N" using sma_init_inv[OF assms] by simp
  have "(int (length (ew_values w)) = ew_windowSize w) = (nat N \<le> length (present vs))"
    using w(3,4) pos by (auto simp: length_last_n)
  then have "sma_value w = (if nat N \<le> length (present vs)
                            then Some (sum_list (last_n (nat N) (present vs)) / of_int N)
                            else None)"
    using w(2,3,4) by (simp add: sma_inv_def)
  then show ?thesis using w by blast
qed

lemma last_n_take:
  assumes "n \<le> Suc i" "i < length xs"
  shows "last_n n (take (Suc i) xs) = take n (drop (Suc i - n) xs)"
proof -
  have "length (take (Suc i) xs) = Suc i" using assms by simp
  then have "last_n n (take (Suc i) xs) = drop (Suc i - n) (take (Suc i) xs)"
    by (simp add: last_n_def)
  also have "\<dots> = take (Suc i - (Suc i - n)) (drop (Suc i - n) xs)"
    by (simp only: drop_take)
  also have "Suc i - (Suc i - n) = n" using assms by simp
  finally show ?thesis .
qed

lemma SMA_exact_equals_direct:
  assumes "0 < N"
  shows "(\<exists>outs. SMA N (map Some xs) = Inr outs \<and> length outs = length xs
            \<and> (\<forall>i<length xs.
                  outs ! i = (if nat N \<le> i + 1
                              then Some (sum_list (take (nat N) (drop (i + 1 - nat N) xs)) / of_int N)
                              else None))
            \<and> (\<forall>i<length xs. nat N \<le> i + 1 \<longrightarrow>
                  calculate_sma (map Some xs) (int i + 1 - N) (int i + 1) = Inr (outs ! i)))
       \<and> (\<forall>w0 w a f. SMAEventWindow_init N = Inr w0 \<and> SMAEventWindow_run w0 vs = Inr w
              \<and> SMAEventWindow_getValue w = Some a \<and> hd (ew_values w) = Some f \<longrightarrow>
              (\<exists>w'. SMAEventWindow_onNewValue w (Some x) = Inr w'
                  \<and> SMAEventWindow_getValue w' = Some (a + (x - f) / of_int N)
                  \<and> ew_values w' = tl (ew_values w) @ [Some x]))
       \<and> SMA 3 (map Some [1, 2, 3, 4, 5]) = Inr [None, None, Some 2, Some 3, Some 4]"
proof -
  let ?w0 = "\<lparr>ew_values = [], ew_windowSize = N, sma_value = None\<rparr>"
  have init: "SMAEventWindow_init N = Inr ?w0"
    using assms by (simp add: SMAEventWindow_init_def EventWindow_init_def)
  have inv0: "sma_inv ?w0" using sma_init_inv[OF init] by simp
  \<comment> \<open>the derived series exists\<close>
  have "\<exists>outs. EventBasedFilter_onNewValues SMAEventWindow_onNewValue
                 (\<lambda>w. Inr (SMAEventWindow_getValue w)) ?w0 (map Some xs) = Inr outs"
    by (rule outputs_total[where P = sma_inv, OF inv0]) (use sma_step in blast)+
  then obtain outs where outs: "SMA N (map Some xs) = Inr outs"
    and outs': "EventBasedFilter_onNewValues SMAEventWindow_onNewValue
                 (\<lambda>w. Inr (SMAEventWindow_getValue w)) ?w0 (map Some xs) = Inr outs"
    by (auto simp: SMA_unfold init)
  from outputs_nth[OF outs'] have len: "length outs = length xs"
    and nth: "\<forall>i<length xs. \<exists>w'. SMAEventWindow_run ?w0 (take (Suc i) (map Some xs)) = Inr w'
                \<and> SMAEventWindow_getValue w' = outs ! i"
    by simp_all
  have val: "outs ! i = (if nat N \<le> i + 1
                          then Some (sum_list (take (nat N) (drop (i + 1 - nat N) xs)) / of_int N)
                          else None)"
    if i: "i < length xs" for i
  proof -
    from nth i obtain w' where
      w': "SMAEventWindow_run ?w0 (take (Suc i) (map Some xs)) = Inr w'"
          "SMAEventWindow_getValue w' = outs ! i"
      by blast
    have pre: "present (take (Suc i) (map Some xs)) = take (Suc i) xs"
      by (simp only: take_map present_map_Some)
    from sma_prefix_value[OF init, where vs = "take (Suc i) (map Some xs)"] w'(1)
    have "sma_value w' = (if nat N \<le> length (take (Suc i) xs)
                          then Some (sum_list (last_n (nat N) (take (Suc i) xs)) / of_int N)
                          else None)"
      unfolding pre by auto
    moreover have "length (take (Suc i) xs) = i + 1" using i by simp
    moreover have "last_n (nat N) (take (Suc i) xs) = take (nat N) (drop (i + 1 - nat N) xs)"
      if "nat N \<le> i + 1"
      using last_n_take[of "nat N" i xs] that i by simp
    ultimately show ?thesis using w'(2) i by (auto simp add: SMAEventWindow_getValue_def)
  qed
  have direct: "calculate_sma (map Some xs) (int i + 1 - N) (int i + 1) = Inr (outs ! i)"
    if i: "i < length xs" and full: "nat N \<le> i + 1" for i
  proof -
    have b: "0 \<le> int i + 1 - N" "int i + 1 - N < int i + 1" "int i + 1 \<le> int (length xs)"
      using i full assms by linarith+
    have "nat (int i + 1 - N) = i + 1 - nat N" using assms by linarith
    then show ?thesis
      using calculate_sma_window[OF b] val[OF i] full by simp
  qed
  \<comment> \<open>the incremental step\<close>
  have step: "\<exists>w'. SMAEventWindow_onNewValue w (Some x) = Inr w'
                  \<and> SMAEventWindow_getValue w' = Some (a + (x - f) / of_int N)
                  \<and> ew_values w' = tl (ew_values w) @ [Some x]"
    if h: "SMAEventWindow_init N = Inr w0 \<and> SMAEventWindow_run w0 vs = Inr w
              \<and> SMAEventWindow_getValue w = Some a \<and> hd (ew_values w) = Some f"
    for w0 w a f
  proof -
    from sma_prefix_value[OF conjunct1[OF h], where vs = vs] h
    have w: "sma_inv w" "ew_windowSize w = N" by auto
    have inv: "ew_inv w" using w(1) by (simp add: sma_inv_def)
    have sv: "sma_value w = Some a" using h by (simp add: SMAEventWindow_getValue_def)
    have full: "int (length (ew_values w)) = ew_windowSize w"
      using w(1) sv by (auto simp: sma_inv_def split: if_splits)
    from sma_onNewValue_slide[OF inv sv full, where x = x] h
    show ?thesis
      by (auto simp add: SMAEventWindow_getValue_def w(2) diff_divide_distrib)
  qed
  have ex: "SMA 3 (map Some [1, 2, 3, 4, 5]) = Inr [None, None, Some 2, Some 3, Some 4]"
    by (simp add: SMA_unfold SMAEventWindow_init_def EventWindow_init_def SMAEventWindow_onNewValue_unfold
        SMAEventWindow_getValue_def EventWindow_onNewValue_def deque_append_def calculate_sma_unfold
        py_index_def Let_def)
  show ?thesis
    using outs len val direct step ex by blast
qed

lemma bit_length_numeral:
  "bit_length (numeral (Num.Bit0 n)) = bit_length (numeral n) + 1"
  "bit_length (numeral (Num.Bit1 n)) = bit_length (numeral n) + 1"
  "bit_length 1 = 1" "bit_length 0 = 0" "bit_length (Suc 0) = 1"
  by (simp_all add: numeral_Bit0_div_2 numeral_Bit1_div_2 del: bit_length.simps, simp_all)

lemma floor_numeral_div:
  "\<lfloor>numeral a / numeral b :: rat\<rfloor> = numeral a div numeral b"
  "\<lfloor>- (numeral a / numeral b) :: rat\<rfloor> = - numeral a div numeral b"
  "\<lceil>numeral a / numeral b :: rat\<rceil> = - (- numeral a div numeral b)"
  using floor_divide_of_int_eq[of "numeral a" "numeral b", where ?'a = rat]
    floor_divide_of_int_eq[of "- numeral a" "numeral b", where ?'a = rat]
  by (simp_all add: ceiling_def)

lemmas round_double_eval =
  round_double_def ilog2_def pow2_def round_half_even_def Let_def bit_length_numeral
  floor_numeral_div

lemma SMA_exact: "SMA_rounded (\<lambda>x. x) N samples = SMA N samples"
  by (simp only: SMA_def)

lemmas sma_rounded_eval =
  SMA_rounded_def SMAEventWindow_init_def EventWindow_init_def
  SMAEventWindow_onNewValue_rounded_def SMAEventWindow_getValue_def EventWindow_onNewValue_def
  deque_append_def calculate_sma_rounded_def py_index_def Let_def

lemma round_double_examples: "round_double 100000000000000000 = 100000000000000000"
  "round_double 100000000000000001 = 100000000000000000"
  "round_double 50000000000000000 = 50000000000000000"
  "round_double (100000000000000001 / 2) = 50000000000000000"
  "round_double (1 / 2) = 1 / 2" "round_double 1 = 1" "round_double 2 = 2"
  "round_double 0 = 0"
  by (simp_all add: round_double_eval del: bit_length.simps)

lemma SMA_double_example:
  "SMA_rounded round_double 3 (map Some [1, 2, 3, 4, 5])
     = Inr [None, None, Some 2, Some (6755399441055743 / 2251799813685248),
            Some (9007199254740991 / 2251799813685248)]"
  by (simp add: sma_rounded_eval round_double_eval del: bit_length.simps)

text \<open>
  Claim C6 says that the incrementally maintained value agrees with the direct average
  within floating-point tolerance over floats. On doubles, for the samples
  \<open>[1e17, 1, 1]\<close> and \<open>N = 2\<close>, the value the code holds after the third sample is
  \<open>0.0\<close> (\<open>5e16 + 1/2\<close> rounds to \<open>5e16\<close>, and \<open>5e16 - 5e16 = 0\<close>), while
  \<open>calculate_sma\<close> over the last two samples gives \<open>1.0\<close>: a relative error of 1, far
  above \<open>1e-9\<close>.
\<close>

theorem SMA_double_counterexample:
  "SMA_rounded round_double 2 (map Some [100000000000000000, 1, 1])
     = Inr [None, Some 50000000000000000, Some 0]
   \<and> calculate_sma_rounded round_double (map Some [100000000000000000, 1, 1]) 1 3
       = Inr (Some 1)
   \<and> \<bar>(0 :: rat) - 1\<bar> > (1 / 1000000000) * \<bar>1\<bar>"
  by (simp add: sma_rounded_eval round_double_examples)

text \<open>
  Claim C6, amended: in exact arithmetic (over the rationals), for every finite sequence
  of present samples and every window size \<open>N > 0\<close>, the series the SMA filter produces
  is defined, has one entry per sample, and its entry at each position where the buffer
  is full is the sum of the last \<open>N\<close> samples divided by \<open>N\<close>, which is what
  \<open>calculate_sma\<close> returns for that window of the samples (before that it is \<open>None\<close>);
  the incremental step from a held average \<open>a\<close>, with \<open>f\<close> the oldest buffered value
  and \<open>x\<close> the new one, gives \<open>a + (x - f) / N\<close>; and on \<open>[1, 2, 3, 4, 5]\<close> with
  \<open>N = 3\<close> the values are 2, 3, 4. The exact definitions are the rounded ones with the
  identity as rounding. On doubles no tolerance is claimed; there the same samples give
  \<open>2.0\<close>, \<open>2.9999999999999996\<close> and \<open>3.9999999999999996\<close>.
\<close>

theorem SMA_incremental_equals_direct:
  assumes "0 < N"
  shows "((\<exists>outs. SMA N (map Some xs) = Inr outs \<and> length outs = length xs
            \<and> (\<forall>i<length xs.
                  outs ! i = (if nat N \<le> i + 1
                              then Some (sum_list (take (nat N) (drop (i + 1 - nat N) xs)) / of_int N)
                              else None))
            \<and> (\<forall>i<length xs. nat N \<le> i + 1 \<longrightarrow>
                  calculate_sma (map Some xs) (int i + 1 - N) (int i + 1) = Inr (outs ! i)))
       \<and> (\<forall>w0 w a f. SMAEventWindow_init N = Inr w0 \<and> SMAEventWindow_run w0 vs = Inr w
              \<and> SMAEventWindow_getValue w = Some a \<and> hd (ew_values w) = Some f \<longrightarrow>
              (\<exists>w'. SMAEventWindow_onNewValue w (Some x) = Inr w'
                  \<and> SMAEventWindow_getValue w' = Some (a + (x - f) / of_int N)
                  \<and> ew_values w' = tl (ew_values w) @ [Some x]))
       \<and> SMA 3 (map Some [1, 2, 3, 4, 5]) = Inr [None, None, Some 2, Some 3, Some 4])
     \<and> SMA_rounded (\<lambda>x. x) N (map Some xs) = SMA N (map Some xs)
     \<and> SMA_rounded round_double 3 (map Some [1, 2, 3, 4, 5])
         = Inr [None, None, Some 2, Some (6755399441055743 / 2251799813685248),
                Some (9007199254740991 / 2251799813685248)]"
  by (rule conjI[OF SMA_exact_equals_direct[OF assms] conjI[OF SMA_exact SMA_double_example]])

theorem SMA_incremental_equals_direct_witness:
  "(0::int) < 2
   \<and> (\<exists>outs. SMA 2 (map Some [4, 6, 11]) = Inr outs \<and> length outs = 3
          \<and> outs ! 2 = Some (17 / 2)
          \<and> calculate_sma (map Some [4, 6, 11]) 1 3 = Inr (outs ! 2))
   \<and> (\<exists>w'. SMAEventWindow_onNewValue
               \<lparr>ew_values = [Some 4, Some 6], ew_windowSize = 2, sma_value = Some 5\<rparr> (Some 11)
             = Inr w'
          \<and> SMAEventWindow_getValue w' = Some (5 + (11 - 4) / of_int 2)
          \<and> ew_values w' = [Some 6, Some 11])"
proof -
  have p: "(0::int) < 2" by simp
  note t = SMA_incremental_equals_direct
    [OF p, of "[4, 6, 11]" "[Some 4, Some 6]" 11, THEN conjunct1]
  from t obtain outs where o: "SMA 2 (map Some [4, 6, 11]) = Inr outs"
    "length outs = length [4, 6, 11::rat]"
    "\<forall>i<length [4, 6, 11::rat].
        outs ! i = (if nat 2 \<le> i + 1
                    then Some (sum_list (take (nat 2) (drop (i + 1 - nat 2) [4, 6, 11])) / of_int 2)
                    else None)"
    "\<forall>i<length [4, 6, 11::rat]. nat 2 \<le> i + 1 \<longrightarrow>
        calculate_sma (map Some [4, 6, 11]) (int i + 1 - 2) (int i + 1) = Inr (outs ! i)"
    by blast
  have "outs ! 2 = Some (17 / 2)" using o(3)[rule_format, of 2] by simp
  moreover have "calculate_sma (map Some [4, 6, 11]) 1 3 = Inr (outs ! 2)"
    using o(4)[rule_format, of 2] by simp
  ultimately have first: "\<exists>outs. SMA 2 (map Some [4, 6, 11]) = Inr outs \<and> length outs = 3
          \<and> outs ! 2 = Some (17 / 2)
          \<and> calculate_sma (map Some [4, 6, 11]) 1 3 = Inr (outs ! 2)"
    using o(1,2) by simp
  let ?wI = "\<lparr>ew_values = [], ew_windowSize = 2, sma_value = None\<rparr> :: SMAEventWindow"
  let ?wF = "\<lparr>ew_values = [Some 4, Some 6], ew_windowSize = 2, sma_value = Some 5\<rparr>
              :: SMAEventWindow"
  have h: "SMAEventWindow_init 2 = Inr ?wI \<and> SMAEventWindow_run ?wI [Some 4, Some 6] = Inr ?wF
             \<and> SMAEventWindow_getValue ?wF = Some 5 \<and> hd (ew_values ?wF) = Some 4"
    by (simp add: SMAEventWindow_init_def EventWindow_init_def SMAEventWindow_onNewValue_unfold
        SMAEventWindow_getValue_def EventWindow_onNewValue_def deque_append_def calculate_sma_unfold
        py_index_def Let_def)
  from t have "\<forall>w0 w a f. SMAEventWindow_init 2 = Inr w0 \<and> SMAEventWindow_run w0 [Some 4, Some 6] = Inr w
              \<and> SMAEventWindow_getValue w = Some a \<and> hd (ew_values w) = Some f \<longrightarrow>
              (\<exists>w'. SMAEventWindow_onNewValue w (Some 11) = Inr w'
                  \<and> SMAEventWindow_getValue w' = Some (a + (11 - f) / of_int 2)
                  \<and> ew_values w' = tl (ew_values w) @ [Some 11])"
    by (elim conjE)
  from this[rule_format, OF h]
  have "\<exists>w'. SMAEventWindow_onNewValue ?wF (Some 11) = Inr w'
                  \<and> SMAEventWindow_getValue w' = Some (5 + (11 - 4) / of_int 2)
                  \<and> ew_values w' = tl (ew_values ?wF) @ [Some 11]" .
  then have second: "\<exists>w'. SMAEventWindow_onNewValue ?wF (Some 11) = Inr w'
          \<and> SMAEventWindow_getValue w' = Some (5 + (11 - 4) / of_int 2)
          \<and> ew_values w' = [Some 6, Some 11]"
    by (simp only: EventWindow.simps SMAEventWindow.simps list.sel append.simps)
  show ?thesis using p first second by blast
qed

lemma ema_fields_onNewValue [simp]:
  "ema_value (EventWindow_onNewValue w v) = ema_value w"
  "ema_multiplier (EventWindow_onNewValue w v) = ema_multiplier w"
  by (simp_all add: EventWindow_onNewValue_def)

lemma ema_onNewValue_None [simp]: "EMAEventWindow_onNewValue w None = Inr w"
  by (simp add: EMAEventWindow_onNewValue_def)

lemma ema_run_no_present: "present vs = [] \<Longrightarrow> EMAEventWindow_run w vs = Inr w"
  by (induction vs rule: present.induct) simp_all

lemma ema_onNewValue_filling:
  assumes "ew_inv w" "int (length (ew_values w)) + 1 < ew_windowSize w"
  shows "EMAEventWindow_onNewValue w (Some x) = Inr (EventWindow_onNewValue w (Some x))"
    and "ew_values (EventWindow_onNewValue w (Some x)) = ew_values w @ [Some x]"
proof -
  let ?w1 = "EventWindow_onNewValue w (Some x)"
  have "length (ew_values w @ [Some x]) \<le> nat (ew_windowSize w)" using assms(2) by simp
  then show vals: "ew_values ?w1 = ew_values w @ [Some x]"
    using onNewValue_Some(1)[OF assms(1), of x] by (simp add: last_n_short)
  then have "int (length (ew_values ?w1)) \<noteq> ew_windowSize ?w1" using assms(2) by simp
  then show "EMAEventWindow_onNewValue w (Some x) = Inr ?w1"
    by (simp add: EMAEventWindow_onNewValue_def Let_def)
qed

lemma ema_onNewValue_seed:
  assumes "ew_inv w" "ema_value w = None" "int (length (ew_values w)) + 1 = ew_windowSize w"
  shows "EMAEventWindow_onNewValue w (Some x)
           = Inr ((EventWindow_onNewValue w (Some x))
                   \<lparr>ema_value := Some (sum_list (present (ew_values w @ [Some x]))
                                         / of_int (ew_windowSize w))\<rparr>)"
    and "ew_values (EventWindow_onNewValue w (Some x)) = ew_values w @ [Some x]"
proof -
  let ?w1 = "EventWindow_onNewValue w (Some x)"
  have "length (ew_values w @ [Some x]) \<le> nat (ew_windowSize w)" using assms(3) by simp
  then show vals: "ew_values ?w1 = ew_values w @ [Some x]"
    using onNewValue_Some(1)[OF assms(1), of x] by (simp add: last_n_short)
  have len: "int (length (ew_values ?w1)) = ew_windowSize ?w1"
    using vals assms(3) by simp
  have nn: "None \<notin> set (ew_values w @ [Some x])" using assms(1) by (simp add: ew_inv_def)
  have "calculate_sma (ew_values w @ [Some x]) 0 (int (length (ew_values w @ [Some x])))
          = Inr (Some (sum_list (present (ew_values w @ [Some x]))
                         / of_int (int (length (ew_values w @ [Some x])))))"
    by (rule calculate_sma_buffer[OF nn]) simp
  then have calc: "calculate_sma (ew_values ?w1) 0 (int (length (ew_values ?w1)))
          = Inr (Some (sum_list (present (ew_values w @ [Some x])) / of_int (ew_windowSize w)))"
    using vals assms(3) by (simp add: add.commute)
  show "EMAEventWindow_onNewValue w (Some x)
           = Inr (?w1\<lparr>ema_value := Some (sum_list (present (ew_values w @ [Some x]))
                                         / of_int (ew_windowSize w))\<rparr>)"
    using len calc assms(2) by (simp add: EMAEventWindow_onNewValue_def Let_def)
qed

lemma ema_onNewValue_slide:
  assumes "ew_inv w" "ema_value w = Some a" "int (length (ew_values w)) = ew_windowSize w"
  shows "EMAEventWindow_onNewValue w (Some x)
           = Inr ((EventWindow_onNewValue w (Some x))
                   \<lparr>ema_value := Some ((x - a) * ema_multiplier w + a)\<rparr>)"
    and "length (ew_values (EventWindow_onNewValue w (Some x))) = length (ew_values w)"
proof -
  let ?w1 = "EventWindow_onNewValue w (Some x)"
  have pos: "0 < ew_windowSize w" using assms(1) by (simp add: ew_inv_def)
  show len: "length (ew_values ?w1) = length (ew_values w)"
    using onNewValue_Some(1)[OF assms(1), of x] assms(3) pos by (simp add: length_last_n)
  then have "int (length (ew_values ?w1)) = ew_windowSize ?w1" using assms(3) by simp
  then show "EMAEventWindow_onNewValue w (Some x)
           = Inr (?w1\<lparr>ema_value := Some ((x - a) * ema_multiplier w + a)\<rparr>)"
    using assms(2) by (simp add: EMAEventWindow_onNewValue_def Let_def)
qed

lemma ema_step:
  assumes "ema_inv w"
  shows "\<exists>w'. EMAEventWindow_onNewValue w v = Inr w' \<and> ema_inv w'
           \<and> ew_values w' = ew_values (EventWindow_onNewValue w v)
           \<and> ew_windowSize w' = ew_windowSize w
           \<and> ema_multiplier w' = ema_multiplier w
           \<and> (ema_value w \<noteq> None \<longrightarrow> ema_value w' \<noteq> None)"
proof (cases v)
  case None
  then show ?thesis using assms by simp
next
  case (Some x)
  have inv: "ew_inv w" using assms by (simp add: ema_inv_def)
  let ?w1 = "EventWindow_onNewValue w (Some x)"
  let ?N = "ew_windowSize w"
  have inv1: "ew_inv ?w1" by (rule onNewValue_inv[OF inv])
  consider (filling) "int (length (ew_values w)) + 1 < ?N"
    | (seed) "int (length (ew_values w)) + 1 = ?N"
    | (slide) "int (length (ew_values w)) = ?N"
    using inv unfolding ew_inv_def by linarith
  then show ?thesis
  proof cases
    case filling
    then have sv: "ema_value w = None" using assms by (simp add: ema_inv_def)
    have "ema_inv ?w1"
      using inv1 sv filling ema_onNewValue_filling(2)[OF inv filling, of x]
      by (simp add: ema_inv_def)
    then show ?thesis using ema_onNewValue_filling(1)[OF inv filling, of x] Some sv by simp
  next
    case seed
    then have sv: "ema_value w = None" using assms by (simp add: ema_inv_def)
    let ?w' = "?w1\<lparr>ema_value := Some (sum_list (present (ew_values w @ [Some x])) / of_int ?N)\<rparr>"
    have vals: "ew_values ?w1 = ew_values w @ [Some x]"
      by (rule ema_onNewValue_seed(2)[OF inv sv seed])
    have "ew_inv ?w'" using inv1 by (simp add: ew_inv_def)
    then have "ema_inv ?w'" using vals seed by (simp add: ema_inv_def)
    then show ?thesis using ema_onNewValue_seed(1)[OF inv sv seed, of x] Some sv by simp
  next
    case slide
    then obtain a where sv: "ema_value w = Some a" using assms by (auto simp: ema_inv_def)
    let ?w' = "?w1\<lparr>ema_value := Some ((x - a) * ema_multiplier w + a)\<rparr>"
    have len: "length (ew_values ?w1) = length (ew_values w)"
      by (rule ema_onNewValue_slide(2)[OF inv sv slide])
    have "ew_inv ?w'" using inv1 by (simp add: ew_inv_def)
    then have "ema_inv ?w'" using len slide by (simp add: ema_inv_def)
    then show ?thesis using ema_onNewValue_slide(1)[OF inv sv slide, of x] Some by simp
  qed
qed

lemma ema_run:
  assumes "ema_inv w"
  shows "\<exists>w'. EMAEventWindow_run w vs = Inr w' \<and> ema_inv w'
           \<and> ew_values w' = ew_values (EventWindow_run w vs)
           \<and> ew_windowSize w' = ew_windowSize w
           \<and> ema_multiplier w' = ema_multiplier w
           \<and> (ema_value w \<noteq> None \<longrightarrow> ema_value w' \<noteq> None)"
  using assms
proof (induction vs arbitrary: w)
  case Nil
  then show ?case by simp
next
  case (Cons v vs)
  from ema_step[OF Cons.prems, where v = v] obtain w1 where
    w1: "EMAEventWindow_onNewValue w v = Inr w1" "ema_inv w1"
        "ew_values w1 = ew_values (EventWindow_onNewValue w v)"
        "ew_windowSize w1 = ew_windowSize w" "ema_multiplier w1 = ema_multiplier w"
        "ema_value w \<noteq> None \<longrightarrow> ema_value w1 \<noteq> None"
    by blast
  from Cons.IH[OF w1(2)] obtain w' where
    w': "EMAEventWindow_run w1 vs = Inr w'" "ema_inv w'"
        "ew_values w' = ew_values (EventWindow_run w1 vs)" "ew_windowSize w' = ew_windowSize w1"
        "ema_multiplier w' = ema_multiplier w1"
        "ema_value w1 \<noteq> None \<longrightarrow> ema_value w' \<noteq> None"
    by blast
  have inv: "ew_inv w" "ew_inv w1" using Cons.prems w1(2) by (simp_all add: ema_inv_def)
  have "ew_values (EventWindow_run w1 vs) = ew_values (EventWindow_run (EventWindow_onNewValue w v) vs)"
    using run_values[OF inv(2), where vs = vs]
      run_values[OF onNewValue_inv[OF inv(1), where v = v], where vs = vs] w1(3,4)
    by simp
  then show ?case using w1 w' by simp
qed

lemma ema_init_inv:
  assumes "EMAEventWindow_init N = Inr w"
  shows "1 < N \<and> ema_inv w \<and> ew_values w = [] \<and> ew_windowSize w = N
           \<and> ema_multiplier w = 2 / (of_int N + 1) \<and> ema_value w = None"
  using assms
  by (auto simp: EMAEventWindow_init_def EventWindow_init_def ema_inv_def ew_inv_def
           split: if_splits)

lemma ema_reachable:
  assumes "EMAEventWindow_init N = Inr w0"
  shows "\<exists>w. EMAEventWindow_run w0 vs = Inr w \<and> ema_inv w \<and> ew_windowSize w = N
           \<and> ema_multiplier w = 2 / (of_int N + 1)
           \<and> ew_values w = map Some (last_n (nat N) (present vs))"
proof -
  have i: "1 < N" "ema_inv w0" "ew_values w0 = []" "ew_windowSize w0 = N"
    "ema_multiplier w0 = 2 / (of_int N + 1)"
    using ema_init_inv[OF assms] by simp_all
  have inv: "ew_inv w0" using i(2) by (simp add: ema_inv_def)
  from ema_run[OF i(2), where vs = vs] obtain w where
    w: "EMAEventWindow_run w0 vs = Inr w" "ema_inv w"
       "ew_values w = ew_values (EventWindow_run w0 vs)" "ew_windowSize w = ew_windowSize w0"
       "ema_multiplier w = ema_multiplier w0"
    by blast
  have "ew_values w = last_n (nat N) (map Some (present vs))"
    using run_values[OF inv, where vs = vs] w(3) i by simp
  then have "ew_values w = map Some (last_n (nat N) (present vs))"
    by (simp add: last_n_def drop_map)
  then show ?thesis using w i by simp
qed

lemma ema_seed_value:
  assumes "ema_inv w" "int (length (ew_values w)) < ew_windowSize w"
    and "int (length (ew_values w) + length (present vs)) = ew_windowSize w"
  shows "\<exists>w'. EMAEventWindow_run w vs = Inr w'
           \<and> ema_value w' = Some (sum_list (present (ew_values w) @ present vs)
                                    / of_int (ew_windowSize w))"
  using assms
proof (induction vs arbitrary: w)
  case Nil
  then show ?case by simp
next
  case (Cons v vs)
  show ?case
  proof (cases v)
    case None
    then show ?thesis using Cons.IH[OF Cons.prems(1,2)] Cons.prems(3) by simp
  next
    case (Some x)
    have inv: "ew_inv w" using Cons.prems(1) by (simp add: ema_inv_def)
    have sv: "ema_value w = None" using Cons.prems(1,2) by (simp add: ema_inv_def)
    let ?w1 = "EventWindow_onNewValue w (Some x)"
    show ?thesis
    proof (cases "int (length (ew_values w)) + 1 < ew_windowSize w")
      case True
      have st: "EMAEventWindow_onNewValue w (Some x) = Inr ?w1"
        and vals: "ew_values ?w1 = ew_values w @ [Some x]"
        using ema_onNewValue_filling[OF inv True] by simp_all
      have inv1: "ema_inv ?w1"
        using onNewValue_inv[OF inv, of "Some x"] sv vals True by (simp add: ema_inv_def)
      have l1: "int (length (ew_values ?w1)) < ew_windowSize ?w1" using vals True by simp
      have l2: "int (length (ew_values ?w1) + length (present vs)) = ew_windowSize ?w1"
        using vals Cons.prems(3) Some by simp
      from Cons.IH[OF inv1 l1 l2] show ?thesis
        using st vals Some by (simp add: present_append)
    next
      case False
      then have seed: "int (length (ew_values w)) + 1 = ew_windowSize w"
        using Cons.prems(2) by linarith
      have "int (length (ew_values w)) + 1 + int (length (present vs)) = ew_windowSize w"
        using Cons.prems(3) Some by simp
      with seed have "int (length (present vs)) = 0" by linarith
      then have np: "present vs = []" by simp
      show ?thesis
        using ema_onNewValue_seed(1)[OF inv sv seed, of x] ema_run_no_present[OF np] Some np
        by (simp add: present_append)
    qed
  qed
qed

lemma run_length_reachable:
  assumes "ew_inv w" "ew_values w = []"
  shows "length (ew_values (EventWindow_run w vs)) = min (nat (ew_windowSize w)) (length (present vs))"
  using run_values[OF assms(1), where vs = vs] assms(2) by (simp add: length_last_n)

lemma deque_append_full:
  "0 < N \<Longrightarrow> int (length xs) = N \<Longrightarrow> int (length (deque_append N xs x)) = N"
  by (cases xs) (auto simp: deque_append_def Let_def)

lemma run_stays_full:
  "0 < ew_windowSize w \<Longrightarrow> int (length (ew_values w)) = ew_windowSize w \<Longrightarrow>
     int (length (ew_values (EventWindow_run w vs))) = ew_windowSize w
     \<and> ew_windowSize (EventWindow_run w vs) = ew_windowSize w"
proof (induction vs arbitrary: w)
  case Nil
  then show ?case by simp
next
  case (Cons v vs)
  have "int (length (ew_values (EventWindow_onNewValue w v))) = ew_windowSize w"
    using Cons.prems deque_append_full[of "ew_windowSize w" "ew_values w" v]
    by (simp add: EventWindow_onNewValue_def)
  then show ?case using Cons.IH[of "EventWindow_onNewValue w v"] Cons.prems by simp
qed

text \<open>
  Claim C9 gives, for the samples \<open>[1, 2, 3, 4, 5]\<close> and period 2, the values 1.5, 2.5 and
  then approximately 3.4166. The third value the code produces is
  \<open>(4 - 2.5) * (2 / 3) + 2.5 = 3.5\<close>, which is more than 0.08 away from 3.4166.
\<close>

theorem EMA_example_counterexample:
  "EMA 2 (map Some [1, 2, 3, 4]) = Inr [None, Some (3 / 2), Some (5 / 2), Some (7 / 2)]
   \<and> \<bar>(7 / 2 :: rat) - 34166 / 10000\<bar> > 8 / 100"
  by (simp add: EMA_def EMAEventWindow_init_def EventWindow_init_def EMAEventWindow_onNewValue_def
        EMAEventWindow_getValue_def EventWindow_onNewValue_def deque_append_def calculate_sma_unfold
        py_index_def Let_def)

text \<open>
  Claim C9, amended: for a period \<open>N > 1\<close> the multiplier is \<open>2 / (N + 1)\<close>; the value is
  \<open>None\<close> while fewer than \<open>N\<close> present samples have been pushed; once exactly \<open>N\<close>
  present samples have been pushed it is their simple average; and from a held value \<open>a\<close>
  each further present sample \<open>x\<close> gives \<open>(x - a) * multiplier + a\<close>. For the samples
  \<open>[1, 2, 3, 4, 5]\<close> and \<open>N = 2\<close> the values are 1.5, 2.5, 3.5 and 4.5.
\<close>

theorem EMA_formula:
  assumes "1 < N"
  shows "EMAEventWindow_init N
           = Inr \<lparr>ew_values = [], ew_windowSize = N,
                  ema_multiplier = 2 / (of_int N + 1), ema_value = None\<rparr>
       \<and> (\<forall>w0. EMAEventWindow_init N = Inr w0 \<longrightarrow>
             (length (present vs) < nat N \<longrightarrow>
                (\<exists>w. EMAEventWindow_run w0 vs = Inr w \<and> EMAEventWindow_getValue w = None))
           \<and> (length (present vs) = nat N \<longrightarrow>
                (\<exists>w. EMAEventWindow_run w0 vs = Inr w
                    \<and> EMAEventWindow_getValue w = Some (sum_list (present vs) / of_int N)))
           \<and> (nat N \<le> length (present vs) \<longrightarrow>
                (\<exists>w a w'. EMAEventWindow_run w0 vs = Inr w \<and> EMAEventWindow_getValue w = Some a
                    \<and> EMAEventWindow_onNewValue w (Some x) = Inr w'
                    \<and> EMAEventWindow_getValue w' = Some ((x - a) * (2 / (of_int N + 1)) + a))))
       \<and> EMA 2 (map Some [1, 2, 3, 4, 5])
           = Inr [None, Some (3 / 2), Some (5 / 2), Some (7 / 2), Some (9 / 2)]"
proof -
  have p1: "EMAEventWindow_init N
           = Inr \<lparr>ew_values = [], ew_windowSize = N,
                  ema_multiplier = 2 / (of_int N + 1), ema_value = None\<rparr>"
    using assms by (simp add: EMAEventWindow_init_def EventWindow_init_def)
  have p2: "(length (present vs) < nat N \<longrightarrow>
                (\<exists>w. EMAEventWindow_run w0 vs = Inr w \<and> EMAEventWindow_getValue w = None))
           \<and> (length (present vs) = nat N \<longrightarrow>
                (\<exists>w. EMAEventWindow_run w0 vs = Inr w
                    \<and> EMAEventWindow_getValue w = Some (sum_list (present vs) / of_int N)))
           \<and> (nat N \<le> length (present vs) \<longrightarrow>
                (\<exists>w a w'. EMAEventWindow_run w0 vs = Inr w \<and> EMAEventWindow_getValue w = Some a
                    \<and> EMAEventWindow_onNewValue w (Some x) = Inr w'
                    \<and> EMAEventWindow_getValue w' = Some ((x - a) * (2 / (of_int N + 1)) + a)))"
    if init: "EMAEventWindow_init N = Inr w0" for w0
  proof -
    have i: "ema_inv w0" "ew_values w0 = []" "ew_windowSize w0 = N"
      using ema_init_inv[OF init] by simp_all
    from ema_reachable[OF init, where vs = vs] obtain w where
      w: "EMAEventWindow_run w0 vs = Inr w" "ema_inv w" "ew_windowSize w = N"
         "ema_multiplier w = 2 / (of_int N + 1)"
         "ew_values w = map Some (last_n (nat N) (present vs))"
      by blast
    have len: "length (ew_values w) = min (nat N) (length (present vs))"
      using w(5) by (simp add: length_last_n)
    have a: "EMAEventWindow_getValue w = None" if "length (present vs) < nat N"
      using that w(2,3) len by (simp add: ema_inv_def EMAEventWindow_getValue_def)
    have b: "\<exists>w. EMAEventWindow_run w0 vs = Inr w
                    \<and> EMAEventWindow_getValue w = Some (sum_list (present vs) / of_int N)"
      if "length (present vs) = nat N"
    proof -
      have l1: "int (length (ew_values w0)) < ew_windowSize w0" using i assms by simp
      have l2: "int (length (ew_values w0) + length (present vs)) = ew_windowSize w0"
        using i that assms by simp
      from ema_seed_value[OF i(1) l1 l2] show ?thesis
        using i by (simp add: EMAEventWindow_getValue_def)
    qed
    have c: "\<exists>w a w'. EMAEventWindow_run w0 vs = Inr w \<and> EMAEventWindow_getValue w = Some a
                    \<and> EMAEventWindow_onNewValue w (Some x) = Inr w'
                    \<and> EMAEventWindow_getValue w' = Some ((x - a) * (2 / (of_int N + 1)) + a)"
      if "nat N \<le> length (present vs)"
    proof -
      have full: "int (length (ew_values w)) = ew_windowSize w"
        using that len w(3) assms by simp
      then obtain a where a: "ema_value w = Some a" using w(2) by (auto simp: ema_inv_def)
      have inv: "ew_inv w" using w(2) by (simp add: ema_inv_def)
      from ema_onNewValue_slide(1)[OF inv a full, of x]
      show ?thesis using w(1,4) a by (auto simp: EMAEventWindow_getValue_def)
    qed
    show ?thesis using a b c w(1) by blast
  qed
  have p3: "EMA 2 (map Some [1, 2, 3, 4, 5])
           = Inr [None, Some (3 / 2), Some (5 / 2), Some (7 / 2), Some (9 / 2)]"
    by (simp add: EMA_def EMAEventWindow_init_def EventWindow_init_def EMAEventWindow_onNewValue_def
        EMAEventWindow_getValue_def EventWindow_onNewValue_def deque_append_def calculate_sma_unfold
        py_index_def Let_def)
  show ?thesis using p1 p2 p3 by blast
qed

theorem EMA_formula_witness:
  "(1::int) < 3
   \<and> (\<exists>w. EMAEventWindow_run
             \<lparr>ew_values = [], ew_windowSize = 3, ema_multiplier = 2 / (of_int 3 + 1),
               ema_value = None\<rparr> [Some 1, None, Some 2] = Inr w
         \<and> EMAEventWindow_getValue w = None)
   \<and> (\<exists>w. EMAEventWindow_run
             \<lparr>ew_values = [], ew_windowSize = 3, ema_multiplier = 2 / (of_int 3 + 1),
               ema_value = None\<rparr> [Some 1, None, Some 2, Some 6] = Inr w
         \<and> EMAEventWindow_getValue w = Some 3)
   \<and> (\<exists>w a w'. EMAEventWindow_run
             \<lparr>ew_values = [], ew_windowSize = 3, ema_multiplier = 2 / (of_int 3 + 1),
               ema_value = None\<rparr> [Some 1, None, Some 2, Some 6] = Inr w
         \<and> EMAEventWindow_getValue w = Some a
         \<and> EMAEventWindow_onNewValue w (Some 5) = Inr w'
         \<and> EMAEventWindow_getValue w' = Some ((5 - a) * (2 / (of_int 3 + 1)) + a))"
proof -
  have p: "(1::int) < 3" by simp
  let ?w0 = "\<lparr>ew_values = [], ew_windowSize = 3, ema_multiplier = 2 / (of_int 3 + 1),
               ema_value = None\<rparr> :: EMAEventWindow"
  note t = EMA_formula [OF p, of "[Some 1, None, Some 2, Some 6]" 5]
  note u = EMA_formula [OF p, of "[Some 1, None, Some 2]" 5]
  from t have init: "EMAEventWindow_init 3 = Inr ?w0"
    by (elim conjE)
  from u have "\<forall>w0. EMAEventWindow_init 3 = Inr w0 \<longrightarrow>
             (length (present [Some 1, None, Some (2::rat)]) < nat 3 \<longrightarrow>
                (\<exists>w. EMAEventWindow_run w0 [Some 1, None, Some 2] = Inr w
                    \<and> EMAEventWindow_getValue w = None))
           \<and> (length (present [Some 1, None, Some (2::rat)]) = nat 3 \<longrightarrow>
                (\<exists>w. EMAEventWindow_run w0 [Some 1, None, Some 2] = Inr w
                    \<and> EMAEventWindow_getValue w
                        = Some (sum_list (present [Some 1, None, Some 2]) / of_int 3)))
           \<and> (nat 3 \<le> length (present [Some 1, None, Some (2::rat)]) \<longrightarrow>
                (\<exists>w a w'. EMAEventWindow_run w0 [Some 1, None, Some 2] = Inr w
                    \<and> EMAEventWindow_getValue w = Some a
                    \<and> EMAEventWindow_onNewValue w (Some 5) = Inr w'
                    \<and> EMAEventWindow_getValue w' = Some ((5 - a) * (2 / (of_int 3 + 1)) + a)))"
    by (elim conjE)
  from this[rule_format, OF init, THEN conjunct1]
  have a: "\<exists>w. EMAEventWindow_run ?w0 [Some 1, None, Some 2] = Inr w
             \<and> EMAEventWindow_getValue w = None"
    by simp
  from t init have
    "(length (present [Some 1, None, Some 2, Some (6::rat)]) = nat 3 \<longrightarrow>
        (\<exists>w. EMAEventWindow_run ?w0 [Some 1, None, Some 2, Some 6] = Inr w
            \<and> EMAEventWindow_getValue w
                = Some (sum_list (present [Some 1, None, Some 2, Some 6]) / of_int 3)))"
    "(nat 3 \<le> length (present [Some 1, None, Some 2, Some (6::rat)]) \<longrightarrow>
        (\<exists>w a w'. EMAEventWindow_run ?w0 [Some 1, None, Some 2, Some 6] = Inr w
         \<and> EMAEventWindow_getValue w = Some a
         \<and> EMAEventWindow_onNewValue w (Some 5) = Inr w'
         \<and> EMAEventWindow_getValue w' = Some ((5 - a) * (2 / (of_int 3 + 1)) + a)))"
    by blast+
  then show ?thesis using a by simp
qed

text \<open>
  Claim C7: construction fails with an assertion error for a window size that is not
  positive (\<open>EventWindow\<close>, \<open>SMAEventWindow\<close>, \<open>TechnicalIndicatorBase\<close>,
  \<open>DataSeriesFilter\<close>), for an exponential period that is not above 1, for an empty
  weight list, and for a \<open>FIFOCache\<close> size that is not positive; and whatever a
  constructor returns has a valid configuration. A cache size that is not positive given
  to \<open>TechnicalIndicatorBase\<close> is not an invalid configuration: it selects \<open>NoCache\<close>, and
  no \<open>FIFOCache\<close> of such a size is ever built.
\<close>

theorem construction_rejects_invalid:
  "(windowSize \<le> 0 \<longrightarrow>
       (EventWindow_init windowSize :: error + 'a EventWindow) = Inl AssertionError
     \<and> SMAEventWindow_init windowSize = Inl AssertionError
     \<and> (TechnicalIndicatorBase_init windowSize cacheSize :: error + 'v TechnicalIndicatorBase)
         = Inl AssertionError
     \<and> (DataSeriesFilter_init windowSize :: error + 'v TechnicalIndicatorBase)
         = Inl AssertionError)
   \<and> (period \<le> 1 \<longrightarrow> EMAEventWindow_init period = Inl AssertionError)
   \<and> WMAEventWindow_init [] = Inl AssertionError
   \<and> (capacity \<le> 0 \<longrightarrow> (FIFOCache_init capacity :: error + 'c FIFOCache) = Inl AssertionError)
   \<and> (\<forall>w :: 'a EventWindow. EventWindow_init windowSize = Inr w \<longrightarrow> 0 < ew_windowSize w)
   \<and> (\<forall>w. SMAEventWindow_init windowSize = Inr w \<longrightarrow> 0 < ew_windowSize w)
   \<and> (\<forall>w. EMAEventWindow_init period = Inr w \<longrightarrow> 1 < ew_windowSize w)
   \<and> (\<forall>w. WMAEventWindow_init weights = Inr w \<longrightarrow>
          wma_weights w \<noteq> [] \<and> ew_windowSize w = int (length (wma_weights w)))
   \<and> (\<forall>c :: 'c FIFOCache. FIFOCache_init capacity = Inr c \<longrightarrow> 0 < c_size c)
   \<and> (\<forall>s :: 'v TechnicalIndicatorBase.
          TechnicalIndicatorBase_init windowSize cacheSize = Inr s \<longrightarrow>
          0 < ti_windowSize s \<and> (\<forall>c. ti_cache s = FIFO c \<longrightarrow> 0 < c_size c)
          \<and> (cacheSize \<le> 0 \<longrightarrow> ti_cache s = NoCache))"
  by (auto simp: EventWindow_init_def SMAEventWindow_init_def EMAEventWindow_init_def
        WMAEventWindow_init_def FIFOCache_init_def TechnicalIndicatorBase_init_def
        DataSeriesFilter_init_def split: if_splits)

theorem construction_rejects_invalid_witness:
  "(EventWindow_init 0 :: error + rat EventWindow) = Inl AssertionError
   \<and> SMAEventWindow_init 0 = Inl AssertionError
   \<and> (TechnicalIndicatorBase_init 0 512 :: error + rat TechnicalIndicatorBase) = Inl AssertionError
   \<and> EMAEventWindow_init 1 = Inl AssertionError
   \<and> WMAEventWindow_init [] = Inl AssertionError
   \<and> (FIFOCache_init 0 :: error + rat FIFOCache) = Inl AssertionError
   \<and> EMAEventWindow_init 2
       = Inr \<lparr>ew_values = [], ew_windowSize = 2, ema_multiplier = 2 / 3, ema_value = None\<rparr>
   \<and> (1::int) < ew_windowSize
        (\<lparr>ew_values = [], ew_windowSize = 2, ema_multiplier = 2 / 3, ema_value = None\<rparr>
           :: EMAEventWindow)
   \<and> (TechnicalIndicatorBase_init 3 0 :: error + rat TechnicalIndicatorBase)
       = Inr \<lparr>ti_windowSize = 3, ti_cache = NoCache, ti_calcCalls = 0\<rparr>"
proof -
  note t = construction_rejects_invalid
    [where windowSize = 0 and period = 1 and capacity = 0 and cacheSize = 512 and weights = "[]",
     where ?'a = rat and ?'v = rat and ?'c = rat]
  note u = construction_rejects_invalid
    [where windowSize = 3 and period = 2 and capacity = 4 and cacheSize = 0 and weights = "[1, 2]",
     where ?'a = rat and ?'v = rat and ?'c = rat]
  have e: "EMAEventWindow_init 2
       = Inr \<lparr>ew_values = [], ew_windowSize = 2, ema_multiplier = 2 / 3, ema_value = None\<rparr>"
    by (simp add: EMAEventWindow_init_def EventWindow_init_def)
  have n: "(TechnicalIndicatorBase_init 3 0 :: error + rat TechnicalIndicatorBase)
       = Inr \<lparr>ti_windowSize = 3, ti_cache = NoCache, ti_calcCalls = 0\<rparr>"
    by (simp add: TechnicalIndicatorBase_init_def)
  from u have "\<forall>w. EMAEventWindow_init 2 = Inr w \<longrightarrow> 1 < ew_windowSize w"
    by (elim conjE)
  from this[rule_format, OF e] have "(1::int) < ew_windowSize
        (\<lparr>ew_values = [], ew_windowSize = 2, ema_multiplier = 2 / 3, ema_value = None\<rparr>
           :: EMAEventWindow)" .
  then show ?thesis using t e n by simp
qed


text \<open>
  Claim C8: pushing \<open>None\<close> leaves an event window as it is: the inherited \<open>onNewValue\<close>
  returns the window unchanged (so the value of the weighted average, computed from the
  buffer, is unchanged too), the EMA method returns its window unchanged, and so does the
  SMA method in every state reachable from its constructor. After any sequence of samples
  pushed into a freshly constructed window, the buffer holds \<open>min N k\<close> values, where \<open>k\<close>
  is the number of present samples in the sequence: it is full exactly when at least \<open>N\<close>
  present samples have been pushed, and never longer than \<open>N\<close>.
\<close>

theorem missing_sample_ignored:
  "EventWindow_onNewValue w None = w
   \<and> WMAEventWindow_getValue (EventWindow_onNewValue m None) = WMAEventWindow_getValue m
   \<and> EMAEventWindow_onNewValue e None = Inr e
   \<and> (\<forall>s0. SMAEventWindow_init N = Inr s0 \<longrightarrow>
         (\<exists>s. SMAEventWindow_run s0 vs = Inr s
             \<and> SMAEventWindow_onNewValue s None = Inr s
             \<and> length (ew_values s) = min (nat N) (length (present vs))))
   \<and> (\<forall>e0. EMAEventWindow_init N = Inr e0 \<longrightarrow>
         (\<exists>e. EMAEventWindow_run e0 vs = Inr e
             \<and> length (ew_values e) = min (nat N) (length (present vs))))
   \<and> (\<forall>b0 :: rat EventWindow. EventWindow_init N = Inr b0 \<longrightarrow>
         length (ew_values (EventWindow_run b0 vs)) = min (nat N) (length (present vs)))
   \<and> (\<forall>m0. WMAEventWindow_init weights = Inr m0 \<longrightarrow>
         length (ew_values (EventWindow_run m0 vs)) = min (length weights) (length (present vs)))"
proof -
  have sma: "\<exists>s. SMAEventWindow_run s0 vs = Inr s
             \<and> SMAEventWindow_onNewValue s None = Inr s
             \<and> length (ew_values s) = min (nat N) (length (present vs))"
    if init: "SMAEventWindow_init N = Inr s0" for s0
  proof -
    from sma_reachable[OF init, where vs = vs] obtain s where
      s: "SMAEventWindow_run s0 vs = Inr s" "sma_inv s"
         "ew_values s = map Some (last_n (nat N) (present vs))"
      by blast
    have "ew_inv s" using s(2) by (simp add: sma_inv_def)
    then show ?thesis using s sma_onNewValue_None[of s] by (simp add: length_last_n)
  qed
  have ema: "\<exists>e. EMAEventWindow_run e0 vs = Inr e
             \<and> length (ew_values e) = min (nat N) (length (present vs))"
    if init: "EMAEventWindow_init N = Inr e0" for e0
    using ema_reachable[OF init, where vs = vs] by (auto simp: length_last_n)
  have base: "length (ew_values (EventWindow_run b0 vs)) = min (nat N) (length (present vs))"
    if init: "EventWindow_init N = Inr b0" for b0 :: "rat EventWindow"
  proof -
    have "ew_inv b0" "ew_values b0 = []" "ew_windowSize b0 = N"
      using init by (auto simp: EventWindow_init_def ew_inv_def split: if_splits)
    then show ?thesis using run_length_reachable[of b0 vs] by simp
  qed
  have wma: "length (ew_values (EventWindow_run m0 vs)) = min (length weights) (length (present vs))"
    if init: "WMAEventWindow_init weights = Inr m0" for m0
  proof -
    have "ew_inv m0" "ew_values m0 = []" "ew_windowSize m0 = int (length weights)"
      using init
      by (auto simp: WMAEventWindow_init_def EventWindow_init_def ew_inv_def split: if_splits)
    then show ?thesis using run_length_reachable[of m0 vs] by simp
  qed
  show ?thesis using sma ema base wma by simp
qed

theorem missing_sample_ignored_witness:
  "(\<exists>s. SMAEventWindow_run \<lparr>ew_values = [], ew_windowSize = 2, sma_value = None\<rparr>
           [Some 1, None, None, Some 4, None, Some 6] = Inr s
       \<and> SMAEventWindow_onNewValue s None = Inr s
       \<and> length (ew_values s) = 2)
   \<and> (\<exists>e. EMAEventWindow_run
             \<lparr>ew_values = [], ew_windowSize = 2, ema_multiplier = 2 / 3, ema_value = None\<rparr>
             [Some 1, None, None] = Inr e
       \<and> length (ew_values e) = 1)
   \<and> length (ew_values (EventWindow_run
        (\<lparr>ew_values = [], ew_windowSize = 2\<rparr> :: rat EventWindow) [Some 1, None, None]))
       = 1
   \<and> length (ew_values (EventWindow_run
        (\<lparr>ew_values = [], ew_windowSize = 2, wma_weights = [1, 3]\<rparr> :: WMAEventWindow)
        [Some 1, None, None]))
       = 1"
proof -
  note t = missing_sample_ignored
    [where N = 2 and vs = "[Some 1, None, None, Some 4, None, Some 6]" and weights = "[1, 3]"
       and w = "\<lparr>ew_values = [], ew_windowSize = 2\<rparr> :: rat EventWindow"
       and m = "\<lparr>ew_values = [], ew_windowSize = 2, wma_weights = [1, 3]\<rparr>"
       and e = "\<lparr>ew_values = [], ew_windowSize = 2, ema_multiplier = 2 / 3, ema_value = None\<rparr>"]
  note u = missing_sample_ignored
    [where N = 2 and vs = "[Some 1, None, None]" and weights = "[1, 3]"
       and w = "\<lparr>ew_values = [], ew_windowSize = 2\<rparr> :: rat EventWindow"
       and m = "\<lparr>ew_values = [], ew_windowSize = 2, wma_weights = [1, 3]\<rparr>"
       and e = "\<lparr>ew_values = [], ew_windowSize = 2, ema_multiplier = 2 / 3, ema_value = None\<rparr>"]
  have i1: "SMAEventWindow_init 2 = Inr \<lparr>ew_values = [], ew_windowSize = 2, sma_value = None\<rparr>"
    by (simp add: SMAEventWindow_init_def EventWindow_init_def)
  have i2: "WMAEventWindow_init [1, 3]
              = Inr \<lparr>ew_values = [], ew_windowSize = 2, wma_weights = [1, 3]\<rparr>"
    by (simp add: WMAEventWindow_init_def EventWindow_init_def)
  have i3: "EMAEventWindow_init 2
              = Inr \<lparr>ew_values = [], ew_windowSize = 2, ema_multiplier = 2 / 3, ema_value = None\<rparr>"
    by (simp add: EMAEventWindow_init_def EventWindow_init_def)
  have i4: "EventWindow_init 2 = Inr (\<lparr>ew_values = [], ew_windowSize = 2\<rparr> :: rat EventWindow)"
    by (simp add: EventWindow_init_def)
  from t i1 have "\<exists>s. SMAEventWindow_run \<lparr>ew_values = [], ew_windowSize = 2, sma_value = None\<rparr>
           [Some 1, None, None, Some 4, None, Some 6] = Inr s
       \<and> SMAEventWindow_onNewValue s None = Inr s
       \<and> length (ew_values s) = min (nat 2) (length (present [Some 1, None, None, Some 4, None, Some (6::rat)]))"
    by simp
  moreover from u i2 have "length (ew_values (EventWindow_run
        (\<lparr>ew_values = [], ew_windowSize = 2, wma_weights = [1, 3]\<rparr> :: WMAEventWindow)
        [Some 1, None, None]))
       = min (length [1, 3::rat]) (length (present [Some 1, None, None :: rat option]))"
    by simp
  moreover from u i3 have "\<exists>e. EMAEventWindow_run
             \<lparr>ew_values = [], ew_windowSize = 2, ema_multiplier = 2 / 3, ema_value = None\<rparr>
             [Some 1, None, None] = Inr e
       \<and> length (ew_values e) = min (nat 2) (length (present [Some 1, None, None :: rat option]))"
    by simp
  moreover from u i4 have "length (ew_values (EventWindow_run
        (\<lparr>ew_values = [], ew_windowSize = 2\<rparr> :: rat EventWindow) [Some 1, None, None]))
       = min (nat 2) (length (present [Some 1, None, None :: rat option]))"
    by simp
  ultimately show ?thesis by (auto simp: numeral_2_eq_2)
qed

lemma full_window_lengths:
  "(0 < ew_windowSize w \<and> int (length (ew_values w)) = ew_windowSize w \<longrightarrow>
      int (length (ew_values (EventWindow_run w us))) = ew_windowSize w)
   \<and> (\<forall>s0 s. SMAEventWindow_init N = Inr s0 \<and> SMAEventWindow_run s0 vs = Inr s
          \<and> SMAEventWindow_getValue s \<noteq> None \<longrightarrow>
          (\<exists>s'. SMAEventWindow_run s ws = Inr s' \<and> SMAEventWindow_getValue s' \<noteq> None
               \<and> int (length (ew_values s')) = N))
   \<and> (\<forall>e0 e. EMAEventWindow_init N = Inr e0 \<and> EMAEventWindow_run e0 vs = Inr e
          \<and> EMAEventWindow_getValue e \<noteq> None \<longrightarrow>
          (\<exists>e'. EMAEventWindow_run e ws = Inr e' \<and> EMAEventWindow_getValue e' \<noteq> None
               \<and> int (length (ew_values e')) = N))"
proof -
  have base: "int (length (ew_values (EventWindow_run w us))) = ew_windowSize w"
    if "0 < ew_windowSize w \<and> int (length (ew_values w)) = ew_windowSize w"
    using run_stays_full[of w us] that by simp
  have sma: "\<exists>s'. SMAEventWindow_run s ws = Inr s' \<and> SMAEventWindow_getValue s' \<noteq> None
               \<and> int (length (ew_values s')) = N"
    if h: "SMAEventWindow_init N = Inr s0 \<and> SMAEventWindow_run s0 vs = Inr s
          \<and> SMAEventWindow_getValue s \<noteq> None" for s0 s
  proof -
    from sma_prefix_value[OF conjunct1[OF h], where vs = vs] h
    have s: "sma_inv s" "ew_windowSize s = N" by auto
    have full: "int (length (ew_values s)) = ew_windowSize s"
      using s(1) h by (auto simp: sma_inv_def SMAEventWindow_getValue_def split: if_splits)
    have pos: "0 < ew_windowSize s" using s(1) by (simp add: sma_inv_def ew_inv_def)
    from sma_run[OF s(1), where vs = ws] obtain s' where
      s': "SMAEventWindow_run s ws = Inr s'" "sma_inv s'"
          "ew_values s' = ew_values (EventWindow_run s ws)" "ew_windowSize s' = ew_windowSize s"
      by blast
    have "int (length (ew_values s')) = ew_windowSize s'"
      using run_stays_full[OF pos full, of ws] s'(3,4) by simp
    then show ?thesis using s' s(2) by (auto simp: sma_inv_def SMAEventWindow_getValue_def)
  qed
  have ema: "\<exists>e'. EMAEventWindow_run e ws = Inr e' \<and> EMAEventWindow_getValue e' \<noteq> None
               \<and> int (length (ew_values e')) = N"
    if h: "EMAEventWindow_init N = Inr e0 \<and> EMAEventWindow_run e0 vs = Inr e
          \<and> EMAEventWindow_getValue e \<noteq> None" for e0 e
  proof -
    from ema_reachable[OF conjunct1[OF h], where vs = vs] h
    have e: "ema_inv e" "ew_windowSize e = N" by auto
    from ema_run[OF e(1), where vs = ws] obtain e' where
      e': "EMAEventWindow_run e ws = Inr e'" "ema_inv e'" "ew_windowSize e' = ew_windowSize e"
          "ema_value e \<noteq> None \<longrightarrow> ema_value e' \<noteq> None"
      by blast
    have nn: "ema_value e' \<noteq> None" using e'(4) h by (simp add: EMAEventWindow_getValue_def)
    have "int (length (ew_values e')) = ew_windowSize e'"
      using e'(2) nn unfolding ema_inv_def ew_inv_def by linarith
    then show ?thesis using e' e(2) nn by (auto simp: EMAEventWindow_getValue_def)
  qed
  show ?thesis using base sma ema by blast
qed

lemma deque_append_full_contents:
  "0 < N \<Longrightarrow> int (length xs) = N \<Longrightarrow> deque_append N xs x = tl xs @ [x]"
  by (cases xs) (auto simp: deque_append_def Let_def)

lemma onNewValue_full_contents:
  assumes "0 < ew_windowSize w" "int (length (ew_values w)) = ew_windowSize w"
  shows "ew_values (EventWindow_onNewValue w (Some x)) = tl (ew_values w) @ [Some x]"
  using assms deque_append_full_contents[of "ew_windowSize w" "ew_values w" "Some x"]
  by (simp add: EventWindow_onNewValue_def)

lemma run_full_contents:
  "0 < ew_windowSize w \<Longrightarrow> int (length (ew_values w)) = ew_windowSize w \<Longrightarrow>
     ew_values (EventWindow_run w us)
       = last_n (length (ew_values w)) (ew_values w @ map Some (present us))"
proof (induction us arbitrary: w)
  case Nil
  then show ?case by (simp add: last_n_def)
next
  case (Cons u us)
  show ?case
  proof (cases u)
    case None
    then show ?thesis using Cons by simp
  next
    case (Some x)
    let ?w1 = "EventWindow_onNewValue w (Some x)"
    have c: "ew_values ?w1 = tl (ew_values w) @ [Some x]"
      by (rule onNewValue_full_contents[OF Cons.prems])
    obtain v t where vt: "ew_values w = v # t"
      using Cons.prems by (cases "ew_values w") auto
    have l: "int (length (ew_values ?w1)) = ew_windowSize ?w1" "0 < ew_windowSize ?w1"
      using c vt Cons.prems by simp_all
    have "ew_values (EventWindow_run ?w1 us)
            = last_n (length (ew_values ?w1)) (ew_values ?w1 @ map Some (present us))"
      by (rule Cons.IH[OF l(2) l(1)])
    also have "\<dots> = last_n (length (ew_values w)) (ew_values w @ map Some (present (u # us)))"
      using c vt Some by (simp add: last_n_def)
    finally show ?thesis using Some by simp
  qed
qed

text \<open>
  Claim C10: a buffer that holds as many values as the window size still does after any
  further sequence of pushes: each present sample drops the oldest value and appends
  the new one (the buffer becomes its tail followed by the sample), an absent sample
  leaves the window as it is, and after any sequence of pushes the buffer is the last
  \<open>N\<close> of its old contents followed by the present samples. Once the SMA or the EMA
  value of a window built by its constructor is present, every further push succeeds
  (a present sample shifts the buffer by one, an absent one returns the window
  unchanged), and every further sequence of pushes leaves the value present and the
  buffer full.
\<close>

theorem full_window_stays_full:
  "((0 < ew_windowSize w \<and> int (length (ew_values w)) = ew_windowSize w \<longrightarrow>
      int (length (ew_values (EventWindow_run w us))) = ew_windowSize w)
   \<and> (\<forall>s0 s. SMAEventWindow_init N = Inr s0 \<and> SMAEventWindow_run s0 vs = Inr s
          \<and> SMAEventWindow_getValue s \<noteq> None \<longrightarrow>
          (\<exists>s'. SMAEventWindow_run s ws = Inr s' \<and> SMAEventWindow_getValue s' \<noteq> None
               \<and> int (length (ew_values s')) = N))
   \<and> (\<forall>e0 e. EMAEventWindow_init N = Inr e0 \<and> EMAEventWindow_run e0 vs = Inr e
          \<and> EMAEventWindow_getValue e \<noteq> None \<longrightarrow>
          (\<exists>e'. EMAEventWindow_run e ws = Inr e' \<and> EMAEventWindow_getValue e' \<noteq> None
               \<and> int (length (ew_values e')) = N)))
   \<and> (0 < ew_windowSize w \<and> int (length (ew_values w)) = ew_windowSize w \<longrightarrow>
        ew_values (EventWindow_onNewValue w (Some y)) = tl (ew_values w) @ [Some y]
        \<and> EventWindow_onNewValue w None = w
        \<and> ew_values (EventWindow_run w us)
            = last_n (length (ew_values w)) (ew_values w @ map Some (present us)))
   \<and> (\<forall>s0 s. SMAEventWindow_init N = Inr s0 \<and> SMAEventWindow_run s0 vs = Inr s
          \<and> SMAEventWindow_getValue s \<noteq> None \<longrightarrow>
          (\<exists>s'. SMAEventWindow_onNewValue s (Some x) = Inr s'
               \<and> ew_values s' = tl (ew_values s) @ [Some x]
               \<and> SMAEventWindow_getValue s' \<noteq> None)
          \<and> SMAEventWindow_onNewValue s None = Inr s)
   \<and> (\<forall>e0 e. EMAEventWindow_init N = Inr e0 \<and> EMAEventWindow_run e0 vs = Inr e
          \<and> EMAEventWindow_getValue e \<noteq> None \<longrightarrow>
          (\<exists>e'. EMAEventWindow_onNewValue e (Some x) = Inr e'
               \<and> ew_values e' = tl (ew_values e) @ [Some x]
               \<and> EMAEventWindow_getValue e' \<noteq> None)
          \<and> EMAEventWindow_onNewValue e None = Inr e)"
proof -
  have base: "ew_values (EventWindow_onNewValue w (Some y)) = tl (ew_values w) @ [Some y]
        \<and> EventWindow_onNewValue w None = w
        \<and> ew_values (EventWindow_run w us)
            = last_n (length (ew_values w)) (ew_values w @ map Some (present us))"
    if h: "0 < ew_windowSize w \<and> int (length (ew_values w)) = ew_windowSize w"
    using onNewValue_full_contents[OF conjunct1[OF h] conjunct2[OF h], of y]
      run_full_contents[OF conjunct1[OF h] conjunct2[OF h], of us]
    by simp
  have sma: "(\<exists>s'. SMAEventWindow_onNewValue s (Some x) = Inr s'
               \<and> ew_values s' = tl (ew_values s) @ [Some x]
               \<and> SMAEventWindow_getValue s' \<noteq> None)
          \<and> SMAEventWindow_onNewValue s None = Inr s"
    if h: "SMAEventWindow_init N = Inr s0 \<and> SMAEventWindow_run s0 vs = Inr s
          \<and> SMAEventWindow_getValue s \<noteq> None" for s0 s
  proof -
    from sma_prefix_value[OF conjunct1[OF h], where vs = vs] h
    have s: "sma_inv s" by auto
    have inv: "ew_inv s" using s by (simp add: sma_inv_def)
    obtain a where a: "sma_value s = Some a" using h by (auto simp: SMAEventWindow_getValue_def)
    have full: "int (length (ew_values s)) = ew_windowSize s"
      using s a by (auto simp: sma_inv_def split: if_splits)
    from sma_onNewValue_slide[OF inv a full, where x = x]
    have "\<exists>s'. SMAEventWindow_onNewValue s (Some x) = Inr s'
               \<and> ew_values s' = tl (ew_values s) @ [Some x]
               \<and> SMAEventWindow_getValue s' \<noteq> None"
      by (auto simp: SMAEventWindow_getValue_def)
    then show ?thesis using sma_onNewValue_None[OF inv] by simp
  qed
  have ema: "(\<exists>e'. EMAEventWindow_onNewValue e (Some x) = Inr e'
               \<and> ew_values e' = tl (ew_values e) @ [Some x]
               \<and> EMAEventWindow_getValue e' \<noteq> None)
          \<and> EMAEventWindow_onNewValue e None = Inr e"
    if h: "EMAEventWindow_init N = Inr e0 \<and> EMAEventWindow_run e0 vs = Inr e
          \<and> EMAEventWindow_getValue e \<noteq> None" for e0 e
  proof -
    from ema_reachable[OF conjunct1[OF h], where vs = vs] h
    have e: "ema_inv e" by auto
    have inv: "ew_inv e" using e by (simp add: ema_inv_def)
    obtain a where a: "ema_value e = Some a" using h by (auto simp: EMAEventWindow_getValue_def)
    have full: "int (length (ew_values e)) = ew_windowSize e"
      using e a unfolding ema_inv_def ew_inv_def by auto
    have pos: "0 < ew_windowSize e" using inv by (simp add: ew_inv_def)
    have "\<exists>e'. EMAEventWindow_onNewValue e (Some x) = Inr e'
               \<and> ew_values e' = tl (ew_values e) @ [Some x]
               \<and> EMAEventWindow_getValue e' \<noteq> None"
      using ema_onNewValue_slide(1)[OF inv a full, of x] onNewValue_full_contents[OF pos full, of x]
      by (simp add: EMAEventWindow_getValue_def)
    then show ?thesis by simp
  qed
  show ?thesis
    by (rule conjI[OF full_window_lengths]) (use base sma ema in blast)
qed

theorem full_window_stays_full_witness:
  "int (length (ew_values (EventWindow_run
        (\<lparr>ew_values = [Some 1], ew_windowSize = 1\<rparr> :: rat EventWindow) [Some 2, None, Some 3])))
     = 1
   \<and> (\<exists>s'. SMAEventWindow_run
            \<lparr>ew_values = [Some 1, Some 3], ew_windowSize = 2, sma_value = Some 2\<rparr>
            [None, Some 5, None] = Inr s'
        \<and> SMAEventWindow_getValue s' \<noteq> None \<and> int (length (ew_values s')) = 2)
   \<and> (\<exists>e'. EMAEventWindow_run
            \<lparr>ew_values = [Some 1, Some 3], ew_windowSize = 2, ema_multiplier = 2 / (of_int 2 + 1),
              ema_value = Some 2\<rparr>
            [None, Some 5, None] = Inr e'
        \<and> EMAEventWindow_getValue e' \<noteq> None \<and> int (length (ew_values e')) = 2)
   \<and> ew_values (EventWindow_onNewValue
        (\<lparr>ew_values = [Some 1], ew_windowSize = 1\<rparr> :: rat EventWindow) (Some 2))
       = [Some 2]"
proof -
  note t = full_window_stays_full
    [where N = 2 and vs = "[Some 1, Some 3]" and ws = "[None, Some 5, None]"
       and w = "\<lparr>ew_values = [Some 1], ew_windowSize = 1\<rparr> :: rat EventWindow"
       and us = "[Some 2, None, Some 3]", THEN conjunct1]
  have s: "SMAEventWindow_init 2 = Inr \<lparr>ew_values = [], ew_windowSize = 2, sma_value = None\<rparr>
     \<and> SMAEventWindow_run \<lparr>ew_values = [], ew_windowSize = 2, sma_value = None\<rparr> [Some 1, Some 3]
         = Inr \<lparr>ew_values = [Some 1, Some 3], ew_windowSize = 2, sma_value = Some 2\<rparr>
     \<and> SMAEventWindow_getValue \<lparr>ew_values = [Some 1, Some 3], ew_windowSize = 2, sma_value = Some 2\<rparr>
         \<noteq> None"
    by (simp add: SMAEventWindow_init_def EventWindow_init_def SMAEventWindow_onNewValue_unfold
        SMAEventWindow_getValue_def EventWindow_onNewValue_def deque_append_def calculate_sma_unfold
        py_index_def Let_def)
  have e: "EMAEventWindow_init 2
             = Inr \<lparr>ew_values = [], ew_windowSize = 2, ema_multiplier = 2 / (of_int 2 + 1),
                    ema_value = None\<rparr>
     \<and> EMAEventWindow_run \<lparr>ew_values = [], ew_windowSize = 2, ema_multiplier = 2 / (of_int 2 + 1),
                            ema_value = None\<rparr> [Some 1, Some 3]
         = Inr \<lparr>ew_values = [Some 1, Some 3], ew_windowSize = 2,
                ema_multiplier = 2 / (of_int 2 + 1), ema_value = Some 2\<rparr>
     \<and> EMAEventWindow_getValue \<lparr>ew_values = [Some 1, Some 3], ew_windowSize = 2,
                ema_multiplier = 2 / (of_int 2 + 1), ema_value = Some 2\<rparr>
         \<noteq> None"
    by (simp add: EMAEventWindow_init_def EventWindow_init_def EMAEventWindow_onNewValue_def
        EMAEventWindow_getValue_def EventWindow_onNewValue_def deque_append_def calculate_sma_unfold
        py_index_def Let_def)
  have b: "0 < ew_windowSize (\<lparr>ew_values = [Some 1], ew_windowSize = 1\<rparr> :: rat EventWindow)
     \<and> int (length (ew_values (\<lparr>ew_values = [Some 1], ew_windowSize = 1\<rparr> :: rat EventWindow)))
         = ew_windowSize (\<lparr>ew_values = [Some 1], ew_windowSize = 1\<rparr> :: rat EventWindow)"
    by simp
  from t b have "int (length (ew_values (EventWindow_run
        (\<lparr>ew_values = [Some 1], ew_windowSize = 1\<rparr> :: rat EventWindow) [Some 2, None, Some 3])))
     = ew_windowSize (\<lparr>ew_values = [Some 1], ew_windowSize = 1\<rparr> :: rat EventWindow)"
    by blast
  then have "int (length (ew_values (EventWindow_run
        (\<lparr>ew_values = [Some 1], ew_windowSize = 1\<rparr> :: rat EventWindow) [Some 2, None, Some 3])))
     = 1"
    by (simp only: EventWindow.simps)
  moreover from t s e have "(\<exists>s'. SMAEventWindow_run
            \<lparr>ew_values = [Some 1, Some 3], ew_windowSize = 2, sma_value = Some 2\<rparr>
            [None, Some 5, None] = Inr s'
        \<and> SMAEventWindow_getValue s' \<noteq> None \<and> int (length (ew_values s')) = 2)
   \<and> (\<exists>e'. EMAEventWindow_run
            \<lparr>ew_values = [Some 1, Some 3], ew_windowSize = 2, ema_multiplier = 2 / (of_int 2 + 1),
              ema_value = Some 2\<rparr>
            [None, Some 5, None] = Inr e'
        \<and> EMAEventWindow_getValue e' \<noteq> None \<and> int (length (ew_values e')) = 2)"
    by blast
  moreover have "ew_values (EventWindow_onNewValue
        (\<lparr>ew_values = [Some 1], ew_windowSize = 1\<rparr> :: rat EventWindow) (Some 2))
       = [Some 2]"
  proof -
    note u = full_window_stays_full
      [where N = 2 and vs = "[Some 1, Some 3]" and ws = "[None, Some 5, None]"
         and w = "\<lparr>ew_values = [Some 1], ew_windowSize = 1\<rparr> :: rat EventWindow"
         and us = "[Some 2, None, Some 3]" and y = 2 and x = 5,
       THEN conjunct2, THEN conjunct1]
    from u b have "ew_values (EventWindow_onNewValue
        (\<lparr>ew_values = [Some 1], ew_windowSize = 1\<rparr> :: rat EventWindow) (Some 2))
       = tl (ew_values (\<lparr>ew_values = [Some 1], ew_windowSize = 1\<rparr> :: rat EventWindow))
           @ [Some 2]"
      by blast
    then show ?thesis by simp
  qed
  ultimately show ?thesis by blast
qed

end
